theory Spec2Isabelle
  imports Main "HOL-Library.Word" "HOL-Library.List_Lexorder" "HOL-Library.Multiset"
begin

section \<open>Text, bytes and the file system\<close>

text \<open>
  A Python \<open>str\<close> is a sequence of Unicode code points; a code point is a natural number.
  A file holds bytes. The program opens every file with \<open>encoding="utf-16-le"\<close>
  (\<open>DEFAULT_ENCODING\<close>), so reading and writing go through the UTF-16-LE codec and, in
  text mode, through Python's newline translation.
\<close>

type_synonym pystr = "nat list"
type_synonym byte = "8 word"
type_synonym path = string
type_synonym row = "pystr list"
type_synonym fs = "path \<rightharpoonup> byte list"

definition ustr :: "string \<Rightarrow> pystr" where
  "ustr s = map of_char s"

abbreviation LF :: nat where "LF \<equiv> 10"
abbreviation CR :: nat where "CR \<equiv> 13"
abbreviation SPACE :: nat where "SPACE \<equiv> 32"
abbreviation DQUOTE :: nat where "DQUOTE \<equiv> 34"
abbreviation SQUOTE :: nat where "SQUOTE \<equiv> 39"
abbreviation SEMI :: nat where "SEMI \<equiv> 59"

definition CRLF :: pystr where
  "CRLF = [CR, LF]"

text \<open>\<open>COLUMNS\<close>, lines 16-32 of \<open>main_app.py\<close>.\<close>

definition COLUMNS :: "pystr list" where
  "COLUMNS = map ustr
     [''ID'', ''ObservationType'', ''Details1'', ''Details2'', ''Details3'', ''Details4'',
      ''Details5'', ''Details6'', ''Deactivation'', ''Class'', ''Message'',
      ''MinPendingTime'', ''Latch1'', ''Latch2'', ''HigherPrioAlarm'']"

subsection \<open>The UTF-16-LE codec\<close>

text \<open>
  Encoding is strict: a surrogate code point (and a number that is no code point at all)
  raises \<open>UnicodeEncodeError\<close>, modelled as \<open>None\<close>. Decoding is strict as well: an odd
  number of bytes, a high surrogate without its low surrogate and a low surrogate on its
  own raise \<open>UnicodeDecodeError\<close>. Neither direction treats the byte order mark
  specially: \<open>FF FE\<close> decodes to the code point U+FEFF.
\<close>

definition is_high_surrogate :: "nat \<Rightarrow> bool" where
  "is_high_surrogate c \<longleftrightarrow> 0xD800 \<le> c \<and> c < 0xDC00"

definition is_low_surrogate :: "nat \<Rightarrow> bool" where
  "is_low_surrogate c \<longleftrightarrow> 0xDC00 \<le> c \<and> c < 0xE000"

definition unit_bytes :: "nat \<Rightarrow> byte list" where
  "unit_bytes c = [of_nat (c mod 256), of_nat (c div 256)]"

definition unit_of :: "byte \<Rightarrow> byte \<Rightarrow> nat" where
  "unit_of lo hi = unat lo + 256 * unat hi"

definition encode_char :: "nat \<Rightarrow> byte list option" where
  "encode_char c =
     (if c < 0xD800 \<or> (0xE000 \<le> c \<and> c < 0x10000) then Some (unit_bytes c)
      else if 0x10000 \<le> c \<and> c < 0x110000 then
        Some (unit_bytes (0xD800 + (c - 0x10000) div 1024) @
              unit_bytes (0xDC00 + (c - 0x10000) mod 1024))
      else None)"

fun utf16le_encode :: "pystr \<Rightarrow> byte list option" where
  "utf16le_encode [] = Some []"
| "utf16le_encode (c # cs) =
     (case encode_char c of
        None \<Rightarrow> None
      | Some bs \<Rightarrow> map_option ((@) bs) (utf16le_encode cs))"

fun utf16le_decode :: "byte list \<Rightarrow> pystr option" where
  "utf16le_decode [] = Some []"
| "utf16le_decode [b] = None"
| "utf16le_decode (lo # hi # bs) =
     (if is_low_surrogate (unit_of lo hi) then None
      else if is_high_surrogate (unit_of lo hi) then
        (case bs of
           lo2 # hi2 # bs2 \<Rightarrow>
             if is_low_surrogate (unit_of lo2 hi2)
             then map_option
                    ((#) (0x10000 + (unit_of lo hi - 0xD800) * 1024 + (unit_of lo2 hi2 - 0xDC00)))
                    (utf16le_decode bs2)
             else None
         | _ \<Rightarrow> None)
      else map_option ((#) (unit_of lo hi)) (utf16le_decode bs))"

subsection \<open>Newline handling of text-mode files\<close>

text \<open>
  The program never passes \<open>newline=\<close> to \<open>open\<close>. On writing, text mode then replaces every
  \<open>\n\<close> by \<open>os.linesep\<close>, which depends on the platform; on reading, \<open>\r\n\<close> and a lone
  \<open>\r\<close> both become \<open>\n\<close> (universal newlines).
\<close>

datatype platform = Posix | Windows

fun linesep :: "platform \<Rightarrow> pystr" where
  "linesep Posix = [LF]"
| "linesep Windows = [CR, LF]"

fun translate_newlines :: "platform \<Rightarrow> pystr \<Rightarrow> pystr" where
  "translate_newlines p [] = []"
| "translate_newlines p (c # cs) =
     (if c = LF then linesep p @ translate_newlines p cs else c # translate_newlines p cs)"

fun universal_newlines :: "pystr \<Rightarrow> pystr" where
  "universal_newlines [] = []"
| "universal_newlines [c] = (if c = CR then [LF] else [c])"
| "universal_newlines (c # d # cs) =
     (if c = CR then
        (if d = LF then LF # universal_newlines cs else LF # universal_newlines (d # cs))
      else c # universal_newlines (d # cs))"

subsection \<open>\<open>str.splitlines\<close>, \<open>str.strip\<close>, \<open>str.split\<close>, \<open>str.join\<close>, \<open>str.replace\<close>\<close>

text \<open>
  \<open>splitlines\<close> breaks at \<open>\n\<close>, \<open>\r\<close>, \<open>\r\n\<close>, \<open>\v\<close>, \<open>\f\<close>, \<open>\x1c\<close>, \<open>\x1d\<close>,
  \<open>\x1e\<close>, \<open>\x85\<close>, U+2028 and U+2029, drops the terminators and yields no empty last
  line. \<open>strip()\<close> without argument removes the characters for which \<open>isspace\<close> holds.
\<close>

definition is_linebreak :: "nat \<Rightarrow> bool" where
  "is_linebreak c \<longleftrightarrow>
     (10 \<le> c \<and> c \<le> 13) \<or> (28 \<le> c \<and> c \<le> 30) \<or> c = 133 \<or> c = 8232 \<or> c = 8233"

definition is_space :: "nat \<Rightarrow> bool" where
  "is_space c \<longleftrightarrow>
     (9 \<le> c \<and> c \<le> 13) \<or> (28 \<le> c \<and> c \<le> 32) \<or> c = 133 \<or> c = 160 \<or> c = 5760 \<or>
     (8192 \<le> c \<and> c \<le> 8202) \<or> c = 8232 \<or> c = 8233 \<or> c = 8239 \<or> c = 8287 \<or> c = 12288"

fun skip_lf :: "nat \<Rightarrow> pystr \<Rightarrow> pystr" where
  "skip_lf c (d # ds) = (if c = CR \<and> d = LF then ds else d # ds)"
| "skip_lf c [] = []"

function splitlines :: "pystr \<Rightarrow> pystr list" where
  "splitlines [] = []"
| "splitlines (c # cs) =
     (if is_linebreak c then [] # splitlines (skip_lf c cs)
      else (case splitlines cs of [] \<Rightarrow> [[c]] | l # ls \<Rightarrow> (c # l) # ls))"
  by pat_completeness auto
termination
proof (relation "measure length")
  fix c :: nat and cs :: pystr
  show "(skip_lf c cs, c # cs) \<in> measure length"
    by (cases cs) auto
qed auto

definition strip_chars :: "(nat \<Rightarrow> bool) \<Rightarrow> pystr \<Rightarrow> pystr" where
  "strip_chars P s = rev (dropWhile P (rev (dropWhile P s)))"

definition strip :: "pystr \<Rightarrow> pystr" where
  "strip s = strip_chars is_space s"

fun split_on :: "nat \<Rightarrow> pystr \<Rightarrow> pystr list" where
  "split_on sep [] = [[]]"
| "split_on sep (c # cs) =
     (if c = sep then [] # split_on sep cs
      else (case split_on sep cs of [] \<Rightarrow> [[c]] | x # xs \<Rightarrow> (c # x) # xs))"

fun join :: "pystr \<Rightarrow> pystr list \<Rightarrow> pystr" where
  "join sep [] = []"
| "join sep [x] = x"
| "join sep (x # y # ys) = x @ sep @ join sep (y # ys)"

definition replace_char :: "nat \<Rightarrow> nat \<Rightarrow> pystr \<Rightarrow> pystr" where
  "replace_char old new s = map (\<lambda>c. if c = old then new else c) s"

section \<open>Field sanitization (\<open>append_row_utf16le\<close>, lines 49-59)\<close>

text \<open>
  The values of a row are what \<open>add_entry\<close> reads from the widgets (lines 308-340):
  strings; \<open>None\<close> is the other value the function provides for. For a string \<open>v\<close>,
  \<open>str(v)\<close> is \<open>v\<close> itself. Other Python objects, whose \<open>str\<close> may run any code, are
  not values of this type.
\<close>

datatype pyval = PyNone | PyStr pystr

fun sanitize_field :: "pyval \<Rightarrow> pystr" where
  "sanitize_field PyNone = []"
| "sanitize_field (PyStr v) =
     replace_char DQUOTE SQUOTE (replace_char CR SPACE (replace_char LF SPACE v))"

section \<open>Reading the store (\<open>read_all_rows\<close>, lines 111-130)\<close>

definition pad_row :: "row \<Rightarrow> row" where
  "pad_row cols = cols @ replicate (length COLUMNS - length cols) []"

definition clean_cell :: "pystr \<Rightarrow> pystr" where
  "clean_cell c =
     strip_chars (\<lambda>x. x = SQUOTE) (strip_chars (\<lambda>x. x = DQUOTE) (strip c))"

definition parse_line :: "pystr \<Rightarrow> row" where
  "parse_line l = pad_row (map clean_cell (split_on SEMI l))"

definition rows_of_lines :: "pystr list \<Rightarrow> row list" where
  "rows_of_lines ls = map parse_line (filter (\<lambda>l. strip l \<noteq> []) ls)"

text \<open>
  A missing file and a file that does not decode raise inside the \<open>try\<close> block; the
  function then returns the empty list.
\<close>

definition read_all_rows :: "fs \<Rightarrow> path \<Rightarrow> row list" where
  "read_all_rows files path =
     (case files path of
        None \<Rightarrow> []
      | Some bs \<Rightarrow>
          (case utf16le_decode bs of
             None \<Rightarrow> []
           | Some t \<Rightarrow> rows_of_lines (splitlines (universal_newlines t))))"

text \<open>
  The two ways the program separates the data rows from the first two rows:
  \<open>refresh_preview_and_autosize\<close> (lines 162-165) and \<open>id_exists\<close> (lines 214-217) take no
  data rows from a file of at most two rows; \<open>delete_selected\<close> (lines 249-253),
  \<open>edit_selected\<close> (line 375) and \<open>save_changes\<close> (lines 428-429) take all rows then.
\<close>

definition data_rows_preview :: "row list \<Rightarrow> row list" where
  "data_rows_preview rows = (if length rows > 2 then drop 2 rows else [])"

definition data_rows_edit :: "row list \<Rightarrow> row list" where
  "data_rows_edit rows = (if length rows > 2 then drop 2 rows else rows)"

definition header_rows_edit :: "row list \<Rightarrow> row list" where
  "header_rows_edit rows = (if length rows > 2 then take 2 rows else [])"

section \<open>Duplicate check (\<open>id_exists\<close>, lines 208-224)\<close>

fun id_exists_loop :: "pystr \<Rightarrow> pystr option \<Rightarrow> row list \<Rightarrow> bool" where
  "id_exists_loop target_id exclude_id [] = False"
| "id_exists_loop target_id exclude_id (r # rs) =
     (if length r > 0 \<and> r ! 0 = target_id \<and> \<not> (exclude_id \<noteq> None \<and> Some (r ! 0) = exclude_id)
      then True
      else id_exists_loop target_id exclude_id rs)"

definition id_exists :: "fs \<Rightarrow> path \<Rightarrow> pystr \<Rightarrow> pystr option \<Rightarrow> bool" where
  "id_exists files path target_id exclude_id =
     id_exists_loop target_id exclude_id (data_rows_preview (read_all_rows files path))"

section \<open>Display order and display rows (lines 136-179)\<close>

text \<open>
  \<open>int(x)\<close> on a string, as CPython does it. Whitespace around the number is skipped:
  the ASCII characters tab, line feed, vertical tab, form feed, carriage return and space,
  and the non-ASCII characters for which \<open>isspace\<close> holds; the ASCII separators
  U+001C to U+001F, which \<open>str.strip\<close> removes, are not skipped. One sign is allowed,
  then decimal digits with single underscores between them. Besides \<open>0\<close>..\<open>9\<close> every
  Unicode decimal digit counts; their table is not part of the program and is a parameter
  of the interpreter here, as is the limit \<open>sys.get_int_max_str_digits()\<close> (0 for no
  limit, 4300 by default): a number of more than 640 digits that exceeds the limit is
  refused. Every refusal is a \<open>ValueError\<close>, which \<open>try_int_key\<close> catches.
\<close>

record interp =
  int_max_str_digits :: nat
  unicode_decimal :: "nat \<Rightarrow> nat option"

definition is_int_space :: "nat \<Rightarrow> bool" where
  "is_int_space c \<longleftrightarrow> (9 \<le> c \<and> c \<le> 13) \<or> c = 32 \<or> (128 \<le> c \<and> is_space c)"

definition digit_value :: "interp \<Rightarrow> nat \<Rightarrow> nat option" where
  "digit_value py c =
     (if 48 \<le> c \<and> c \<le> 57 then Some (c - 48)
      else if c < 128 \<or> is_space c then None
      else unicode_decimal py c)"

fun parse_digits :: "interp \<Rightarrow> nat \<Rightarrow> bool \<Rightarrow> pystr \<Rightarrow> nat option" where
  "parse_digits py acc after_digit [] = (if after_digit then Some acc else None)"
| "parse_digits py acc after_digit (c # cs) =
     (if c = 95 then (if after_digit then parse_digits py acc False cs else None)
      else (case digit_value py c of
              None \<Rightarrow> None
            | Some d \<Rightarrow> parse_digits py (10 * acc + d) True cs))"

definition too_many_digits :: "interp \<Rightarrow> nat \<Rightarrow> bool" where
  "too_many_digits py n \<longleftrightarrow> 640 < n \<and> 0 < int_max_str_digits py \<and> int_max_str_digits py < n"

definition py_int :: "interp \<Rightarrow> pystr \<Rightarrow> int option" where
  "py_int py x =
     (case strip_chars is_int_space x of
        [] \<Rightarrow> None
      | c # cs \<Rightarrow>
          (let body = (if c = 45 \<or> c = 43 then cs else c # cs) in
           case parse_digits py 0 False body of
             None \<Rightarrow> None
           | Some n \<Rightarrow>
               if too_many_digits py (length (filter (\<lambda>d. d \<noteq> 95) body)) then None
               else Some (if c = 45 then - int n else int n)))"

text \<open>
  The sort keys are the tuples \<open>(0, int(x))\<close> and \<open>(1, str(x))\<close>. Python compares tuples
  component by component, so every key with tag 0 is below every key with tag 1, two keys
  with tag 0 compare as integers and two keys with tag 1 as strings, code point by code
  point.
\<close>

datatype sort_key = IntKey int | StrKey pystr

instantiation sort_key :: linorder
begin

fun less_eq_sort_key :: "sort_key \<Rightarrow> sort_key \<Rightarrow> bool" where
  "less_eq_sort_key (IntKey a) (IntKey b) = (a \<le> b)"
| "less_eq_sort_key (IntKey a) (StrKey t) = True"
| "less_eq_sort_key (StrKey s) (IntKey b) = False"
| "less_eq_sort_key (StrKey s) (StrKey t) = (s \<le> t)"

definition less_sort_key :: "sort_key \<Rightarrow> sort_key \<Rightarrow> bool" where
  "less_sort_key x y = (x \<le> y \<and> \<not> y \<le> x)"

instance
proof
  fix x y z :: sort_key
  show "(x < y) = (x \<le> y \<and> \<not> y \<le> x)"
    by (simp add: less_sort_key_def)
  show "x \<le> x"
    by (cases x) simp_all
  show "x \<le> y \<Longrightarrow> y \<le> z \<Longrightarrow> x \<le> z"
    by (cases x; cases y; cases z) auto
  show "x \<le> y \<Longrightarrow> y \<le> x \<Longrightarrow> x = y"
    by (cases x; cases y) auto
  show "x \<le> y \<or> y \<le> x"
    by (cases x; cases y) auto
qed

end

definition is_int_key :: "sort_key \<Rightarrow> bool" where
  "is_int_key k = (case k of IntKey n \<Rightarrow> True | StrKey s \<Rightarrow> False)"

definition try_int_key :: "interp \<Rightarrow> pystr \<Rightarrow> sort_key" where
  "try_int_key py x = (case py_int py x of Some n \<Rightarrow> IntKey n | None \<Rightarrow> StrKey x)"

text \<open>The key function of line 168: \<open>r[0] if r and len(r) > 0 else ""\<close>.\<close>

definition row_key :: "interp \<Rightarrow> row \<Rightarrow> sort_key" where
  "row_key py r = try_int_key py (if r \<noteq> [] \<and> length r > 0 then r ! 0 else [])"

text \<open>\<open>sorted\<close> is a stable sort, as \<open>sort_key\<close> is.\<close>

definition order_for_display :: "interp \<Rightarrow> row list \<Rightarrow> row list" where
  "order_for_display py data_rows = sort_key (row_key py) data_rows"

definition build_condition :: "pystr \<Rightarrow> pystr \<Rightarrow> pystr \<Rightarrow> pystr" where
  "build_condition details1 details2 details3 =
     strip (details1 @ [SPACE] @ details2 @ [SPACE] @ details3)"

text \<open>
  Lines 171-179. \<open>r[0]\<close> is read without a length test and raises \<open>IndexError\<close> on an
  empty row (\<open>None\<close> here); the other reads are guarded.
\<close>

definition display_row :: "row \<Rightarrow> (pystr \<times> pystr \<times> pystr \<times> pystr) option" where
  "display_row r =
     (if length r = 0 then None
      else Some (r ! 0,
                 build_condition (if length r > 2 then r ! 2 else [])
                                 (if length r > 3 then r ! 3 else ustr ''='')
                                 (if length r > 4 then r ! 4 else []),
                 if length r > 9 then r ! 9 else [],
                 if length r > 10 then r ! 10 else []))"

definition preview ::
  "interp \<Rightarrow> fs \<Rightarrow> path \<Rightarrow> (pystr \<times> pystr \<times> pystr \<times> pystr) option list" where
  "preview py files path =
     map display_row (order_for_display py (data_rows_preview (read_all_rows files path)))"

section \<open>Writing the store\<close>

text \<open>
  \<open>f.write\<close> encodes each string as it is written; when one of them cannot be encoded the
  exception leaves the \<open>with\<close> block and the file keeps what was written before. Every
  path is taken to be writable: failures of the operating system are outside the model.
  The result of a write is the new file system and whether it went through.
\<close>

fun write_chunks :: "platform \<Rightarrow> pystr list \<Rightarrow> byte list \<times> bool" where
  "write_chunks p [] = ([], True)"
| "write_chunks p (s # ss) =
     (case utf16le_encode (translate_newlines p s) of
        None \<Rightarrow> ([], False)
      | Some bs \<Rightarrow> (case write_chunks p ss of (rest, ok) \<Rightarrow> (bs @ rest, ok)))"

definition open_write :: "platform \<Rightarrow> fs \<Rightarrow> path \<Rightarrow> pystr list \<Rightarrow> fs \<times> bool" where
  "open_write p files path chunks =
     (case write_chunks p chunks of (bs, ok) \<Rightarrow> (files(path \<mapsto> bs), ok))"

definition open_append :: "platform \<Rightarrow> fs \<Rightarrow> path \<Rightarrow> pystr list \<Rightarrow> fs \<times> bool" where
  "open_append p files path chunks =
     (case write_chunks p chunks of
        (bs, ok) \<Rightarrow> (files(path \<mapsto> (case files path of None \<Rightarrow> [] | Some old \<Rightarrow> old) @ bs), ok))"

text \<open>\<open>ensure_file_and_header\<close>, lines 37-44.\<close>

definition header_line :: pystr where
  "header_line = join [SEMI] COLUMNS @ CRLF"

definition ensure_file_and_header :: "platform \<Rightarrow> fs \<Rightarrow> path \<Rightarrow> fs \<times> bool" where
  "ensure_file_and_header p files path =
     (if files path \<noteq> None then (files, True) else open_write p files path [header_line])"

text \<open>\<open>append_row_utf16le\<close>, lines 47-67.\<close>

definition append_row_utf16le :: "platform \<Rightarrow> fs \<Rightarrow> path \<Rightarrow> pyval list \<Rightarrow> fs \<times> bool" where
  "append_row_utf16le p files path row_values =
     (let safe_values = map sanitize_field row_values;
          line = join [SEMI] safe_values @ CRLF
      in case ensure_file_and_header p files path of
           (files1, ok) \<Rightarrow> if ok then open_append p files1 path [line] else (files1, False))"

text \<open>
  \<open>create_new_file\<close>, lines 86-101: the file is opened in binary mode, so there is no
  newline translation.
\<close>

datatype outcome = Done | NotFound | WriteError | IdRequired | DuplicateId

definition BOM_UTF16_LE :: "byte list" where
  "BOM_UTF16_LE = [0xFF, 0xFE]"

definition version_line :: pystr where
  "version_line = ustr ''#Version: 1.0.0.0'' @ replicate (length COLUMNS - 1) SEMI @ CRLF"

definition create_new_file :: "fs \<Rightarrow> path \<Rightarrow> outcome \<times> fs" where
  "create_new_file files path =
     (case utf16le_encode version_line of
        None \<Rightarrow> (WriteError, files(path \<mapsto> BOM_UTF16_LE))
      | Some v \<Rightarrow>
          (case utf16le_encode header_line of
             None \<Rightarrow> (WriteError, files(path \<mapsto> BOM_UTF16_LE @ v))
           | Some h \<Rightarrow> (Done, files(path \<mapsto> BOM_UTF16_LE @ v @ h))))"

text \<open>The rewriting loop shared by \<open>delete_selected\<close> (266-272) and \<open>save_changes\<close> (462-468).\<close>

definition row_line :: "row \<Rightarrow> pystr" where
  "row_line row = join [SEMI] (pad_row row) @ CRLF"

definition write_rows :: "platform \<Rightarrow> fs \<Rightarrow> path \<Rightarrow> row list \<Rightarrow> fs \<times> bool" where
  "write_rows p files path rows = open_write p files path (map row_line rows)"

text \<open>
  \<open>delete_selected\<close>, lines 244-275, from the reading of the file on: the selection and
  the confirmation dialog come before and hand over \<open>target_id\<close>.
\<close>

fun delete_loop :: "pystr \<Rightarrow> bool \<Rightarrow> row list \<Rightarrow> row list \<times> bool" where
  "delete_loop target_id removed [] = ([], removed)"
| "delete_loop target_id removed (r # rs) =
     (if \<not> removed \<and> length r > 0 \<and> r ! 0 = target_id then delete_loop target_id True rs
      else (case delete_loop target_id removed rs of (kept, flag) \<Rightarrow> (r # kept, flag)))"

definition delete_new_lines :: "pystr \<Rightarrow> row list \<Rightarrow> row list \<times> bool" where
  "delete_new_lines target_id rows =
     (case delete_loop target_id False (data_rows_edit rows) of
        (kept, removed) \<Rightarrow> (header_rows_edit rows @ kept, removed))"

definition delete_selected :: "platform \<Rightarrow> fs \<Rightarrow> path \<Rightarrow> pystr \<Rightarrow> outcome \<times> fs" where
  "delete_selected p files path target_id =
     (case delete_new_lines target_id (read_all_rows files path) of
        (new_lines, removed) \<Rightarrow>
          if \<not> removed then (NotFound, files)
          else (case write_rows p files path new_lines of
                  (files', ok) \<Rightarrow> (if ok then Done else WriteError, files')))"

text \<open>
  \<open>save_changes\<close>, lines 411-471, in edit mode. The form holds what the widgets return;
  \<open>original_id\<close> is the global of that name.
\<close>

record form =
  entry_id :: pystr
  entry_details1 :: pystr
  combo_details3 :: pystr
  combo_obs_type :: pystr
  combo_class :: pystr
  text_message :: pystr

definition new_row :: "form \<Rightarrow> row" where
  "new_row f =
     [strip (entry_id f), combo_obs_type f, strip (entry_details1 f), ustr ''='',
      combo_details3 f, [], [], [], [], combo_class f, strip (text_message f), [], [], [], []]"

fun update_loop :: "pystr \<Rightarrow> row \<Rightarrow> bool \<Rightarrow> row list \<Rightarrow> row list \<times> bool" where
  "update_loop original_id new_r updated [] = ([], updated)"
| "update_loop original_id new_r updated (r # rs) =
     (if \<not> updated \<and> length r > 0 \<and> r ! 0 = original_id
      then (case update_loop original_id new_r True rs of (out, flag) \<Rightarrow> (new_r # out, flag))
      else (case update_loop original_id new_r updated rs of (out, flag) \<Rightarrow> (r # out, flag)))"

definition save_new_all :: "pystr \<Rightarrow> row \<Rightarrow> row list \<Rightarrow> row list \<times> bool" where
  "save_new_all original_id new_r rows =
     (case update_loop original_id new_r False (data_rows_edit rows) of
        (out, updated) \<Rightarrow> (header_rows_edit rows @ out, updated))"

definition save_changes :: "platform \<Rightarrow> fs \<Rightarrow> path \<Rightarrow> pystr \<Rightarrow> form \<Rightarrow> outcome \<times> fs" where
  "save_changes p files path original_id f =
     (let new_id = strip (entry_id f) in
      if new_id = [] then (IdRequired, files)
      else if id_exists files path new_id (Some original_id) then (DuplicateId, files)
      else
        (case save_new_all original_id (new_row f) (read_all_rows files path) of
           (new_all, updated) \<Rightarrow>
             if \<not> updated then (NotFound, files)
             else (case write_rows p files path new_all of
                     (files', ok) \<Rightarrow> (if ok then Done else WriteError, files'))))"

section \<open>Predicates used in the statements\<close>

text \<open>
  What the codec can encode; strings without a line break; cells that a line of the file
  can carry (\<open>storable_cell\<close>) and cells that come back from the file as they were
  written (\<open>plain_cell\<close>); the text of a file, when it exists and decodes.
\<close>

definition encodable :: "pystr \<Rightarrow> bool" where
  "encodable t \<longleftrightarrow> (\<forall>c\<in>set t. c < 0x110000 \<and> \<not> (0xD800 \<le> c \<and> c < 0xE000))"

definition no_linebreak :: "pystr \<Rightarrow> bool" where
  "no_linebreak s \<longleftrightarrow> (\<forall>c\<in>set s. \<not> is_linebreak c)"

definition storable_cell :: "pystr \<Rightarrow> bool" where
  "storable_cell c \<longleftrightarrow> encodable c \<and> SEMI \<notin> set c \<and> no_linebreak c"

definition plain_cell :: "pystr \<Rightarrow> bool" where
  "plain_cell c \<longleftrightarrow> storable_cell c \<and> clean_cell c = c"

definition file_text :: "fs \<Rightarrow> path \<Rightarrow> pystr option" where
  "file_text files path = (case files path of None \<Rightarrow> None | Some bs \<Rightarrow> utf16le_decode bs)"

text \<open>The decimal numeral of a natural number, to state what \<open>int\<close> makes of one.\<close>

function digits_of :: "nat \<Rightarrow> pystr" where
  "digits_of n = (if n < 10 then [48 + n] else digits_of (n div 10) @ [48 + n mod 10])"
  by pat_completeness auto
termination
  by (relation "measure id") auto

declare digits_of.simps [simp del]

text \<open>
  Two stores made by the program itself: the file that \<open>ensure_file_and_header\<close> makes of
  a missing path, and the file that \<open>create_new_file\<close> writes.
\<close>

definition ensured_store :: fs where
  "ensured_store = fst (ensure_file_and_header Posix Map.empty ''x.csv'')"

definition fresh_store :: fs where
  "fresh_store = snd (create_new_file Map.empty ''x.csv'')"

text \<open>An interpreter with the default digit limit and no digits besides \<open>0\<close>..\<open>9\<close>.\<close>

definition default_interp :: interp where
  "default_interp = \<lparr>int_max_str_digits = 4300, unicode_decimal = (\<lambda>c. None)\<rparr>"

definition matches :: "pystr \<Rightarrow> row \<Rightarrow> bool" where
  "matches ident r \<longleftrightarrow> length r > 0 \<and> r ! 0 = ident"

text \<open>
  What removing and replacing the first row with a given identifier mean for a list of
  rows; rows whose cells the stripping on load leaves as they are; the number of fields of
  a line; and the store whose file holds the given lines, each ended by CR LF.
\<close>

definition remove_first :: "pystr \<Rightarrow> row list \<Rightarrow> row list" where
  "remove_first ident rows =
     takeWhile (\<lambda>r. \<not> matches ident r) rows @ tl (dropWhile (\<lambda>r. \<not> matches ident r) rows)"

definition replace_first :: "pystr \<Rightarrow> row \<Rightarrow> row list \<Rightarrow> row list" where
  "replace_first ident new rows =
     (case dropWhile (\<lambda>r. \<not> matches ident r) rows of
        [] \<Rightarrow> rows
      | r # rest \<Rightarrow> takeWhile (\<lambda>r. \<not> matches ident r) rows @ new # rest)"

definition normal_rows :: "row list \<Rightarrow> bool" where
  "normal_rows rows \<longleftrightarrow> (\<forall>r\<in>set rows. \<forall>c\<in>set r. clean_cell c = c)"

definition field_count :: "pystr \<Rightarrow> nat" where
  "field_count l = length (split_on SEMI l)"

definition store_of_lines :: "path \<Rightarrow> pystr list \<Rightarrow> fs" where
  "store_of_lines path ls =
     (case utf16le_encode (concat (map (\<lambda>l. l @ CRLF) ls)) of
        None \<Rightarrow> Map.empty
      | Some bs \<Rightarrow> [path \<mapsto> bs])"

text \<open>The first row that \<open>read_all_rows\<close> returns for a file made by \<open>create_new_file\<close>.\<close>

definition version_cells :: row where
  "version_cells = (65279 # ustr ''#Version: 1.0.0.0'') # replicate 14 []"

text \<open>
  A record as \<open>add_entry\<close> builds it (lines 324-340), the row it becomes in the file, and
  a short record whose identifier is written between apostrophes.
\<close>

definition sample_record :: "pyval list" where
  "sample_record = map (\<lambda>s. PyStr (ustr s))
     [''1'', ''Digital'', ''MotorFault'', ''='', ''TRUE'', [], [], [], [], ''Error'',
      ''Motor fault'', [], [], [], []]"

definition sample_row :: row where
  "sample_row = map ustr
     [''1'', ''Digital'', ''MotorFault'', ''='', ''TRUE'', [], [], [], [], ''Error'',
      ''Motor fault'', [], [], [], []]"

definition quoted_record :: "pyval list" where
  "quoted_record = [PyStr [SQUOTE, 97, SQUOTE], PyStr (ustr ''Digital'')]"

text \<open>
  Stores for the statements about removing and updating: a file of four lines (version,
  header, the sample record, a short second record) with the rows it is read as; the same
  with two short records, the second of which has its identifier \<open>"1"\<close> written between
  apostrophes; and the freshly created store after the sample record was appended.
\<close>

definition plain_version_line :: pystr where
  "plain_version_line = ustr ''#Version: 1.0.0.0'' @ replicate 14 SEMI"

definition plain_version_cells :: row where
  "plain_version_cells = ustr ''#Version: 1.0.0.0'' # replicate 14 []"

definition two_record_store :: fs where
  "two_record_store = store_of_lines ''x.csv''
     [plain_version_line, join [SEMI] COLUMNS, join [SEMI] sample_row, ustr ''2;Analog'']"

definition second_row :: row where
  "second_row = [ustr ''2'', ustr ''Analog''] @ replicate 13 []"

definition quoted_id_line :: pystr where
  "quoted_id_line = [SQUOTE, DQUOTE, 49, DQUOTE, SQUOTE] @ ustr '';Analog''"

definition quoted_id_store :: fs where
  "quoted_id_store = store_of_lines ''x.csv''
     [plain_version_line, join [SEMI] COLUMNS, ustr ''1;Digital'', quoted_id_line]"

definition one_record_store :: fs where
  "one_record_store = fst (append_row_utf16le Posix fresh_store ''x.csv'' sample_record)"

section \<open>Properties of sanitization\<close>

lemma replace_char_absent: "old \<noteq> new \<Longrightarrow> old \<notin> set (replace_char old new s)"
  by (auto simp: replace_char_def)

lemma replace_char_keeps_absent:
  "c \<notin> set s \<Longrightarrow> c \<noteq> new \<Longrightarrow> c \<notin> set (replace_char old new s)"
  by (auto simp: replace_char_def)

lemma replace_char_id: "old \<notin> set s \<Longrightarrow> replace_char old new s = s"
  by (induction s) (auto simp: replace_char_def)

lemma sanitize_field_no_LF: "LF \<notin> set (sanitize_field v)"
  by (cases v) (simp_all add: replace_char_absent replace_char_keeps_absent)

lemma sanitize_field_no_CR: "CR \<notin> set (sanitize_field v)"
  by (cases v) (simp_all add: replace_char_absent replace_char_keeps_absent)

lemma sanitize_field_no_DQUOTE: "DQUOTE \<notin> set (sanitize_field v)"
  by (cases v) (simp_all add: replace_char_absent)

lemma sanitize_field_fixed:
  "LF \<notin> set s \<Longrightarrow> CR \<notin> set s \<Longrightarrow> DQUOTE \<notin> set s \<Longrightarrow> sanitize_field (PyStr s) = s"
  by (simp add: replace_char_id)

lemma sanitize_field_pointwise:
  "sanitize_field (PyStr s) =
   map (\<lambda>c. if c = LF \<or> c = CR then SPACE else if c = DQUOTE then SQUOTE else c) s"
  by (simp add: replace_char_def)

section \<open>The codec: decoding what was encoded\<close>

lemma unit_of_unit_bytes:
  "c < 65536 \<Longrightarrow> unit_of (of_nat (c mod 256)) (of_nat (c div 256)) = c"
  by (simp add: unit_of_def unat_of_nat)

lemma decode_unit:
  "c < 65536 \<Longrightarrow> \<not> is_low_surrogate c \<Longrightarrow> \<not> is_high_surrogate c \<Longrightarrow>
   utf16le_decode (unit_bytes c @ rest) = map_option ((#) c) (utf16le_decode rest)"
  by (simp add: unit_bytes_def unit_of_unit_bytes)

lemma decode_pair:
  assumes "65536 \<le> c" "c < 1114112"
  shows "utf16le_decode (unit_bytes (55296 + (c - 65536) div 1024) @
            unit_bytes (56320 + (c - 65536) mod 1024) @ rest) =
         map_option ((#) c) (utf16le_decode rest)"
proof -
  let ?h = "55296 + (c - 65536) div 1024"
  let ?l = "56320 + (c - 65536) mod 1024"
  have h: "?h < 65536" "is_high_surrogate ?h" "\<not> is_low_surrogate ?h"
    using assms by (auto simp: is_high_surrogate_def is_low_surrogate_def)
  have l: "?l < 65536" "is_low_surrogate ?l"
    by (auto simp: is_low_surrogate_def)
  have c: "65536 + (?h - 55296) * 1024 + (?l - 56320) = c"
    using assms by simp
  show ?thesis
    using h l c
    by (simp add: unit_bytes_def unit_of_unit_bytes del: of_nat_add of_nat_numeral)
qed

lemma encode_char_decode:
  "encode_char c = Some bs \<Longrightarrow>
   utf16le_decode (bs @ rest) = map_option ((#) c) (utf16le_decode rest)"
  unfolding encode_char_def
  by (auto split: if_splits simp: decode_unit decode_pair is_low_surrogate_def is_high_surrogate_def)

lemma encode_decode_append:
  "utf16le_encode t = Some bs \<Longrightarrow>
   utf16le_decode (bs @ rest) = map_option ((@) t) (utf16le_decode rest)"
proof (induction t arbitrary: bs)
  case Nil
  then show ?case by (simp add: option.map_ident)
next
  case (Cons c t)
  then obtain b1 b2 where b: "encode_char c = Some b1" "utf16le_encode t = Some b2" "bs = b1 @ b2"
    by (auto split: option.splits)
  show ?case
    using Cons.IH [OF b(2)] encode_char_decode [OF b(1)] b(3)
    by (simp add: option.map_comp comp_def)
qed

lemma encode_decode: "utf16le_encode t = Some bs \<Longrightarrow> utf16le_decode bs = Some t"
  using encode_decode_append [of t bs "[]"] by simp

lemma encode_char_Some: "c < 1114112 \<Longrightarrow> \<not> (55296 \<le> c \<and> c < 57344) \<Longrightarrow> \<exists>bs. encode_char c = Some bs"
  by (auto simp: encode_char_def)

lemma encode_Some_iff: "(\<exists>bs. utf16le_encode t = Some bs) \<longleftrightarrow> encodable t"
proof (induction t)
  case Nil
  then show ?case by (simp add: encodable_def)
next
  case (Cons c t)
  have "(\<exists>b. encode_char c = Some b) \<longleftrightarrow> c < 1114112 \<and> \<not> (55296 \<le> c \<and> c < 57344)"
    by (auto simp: encode_char_def split: if_splits)
  moreover have "encodable (c # t) \<longleftrightarrow> (c < 1114112 \<and> \<not> (55296 \<le> c \<and> c < 57344)) \<and> encodable t"
    by (auto simp: encodable_def)
  ultimately show ?case
    using Cons.IH by (auto split: option.splits)
qed

lemma encodable_append [simp]: "encodable (s @ t) \<longleftrightarrow> encodable s \<and> encodable t"
  by (auto simp: encodable_def)

lemma encode_append:
  "utf16le_encode s = Some a \<Longrightarrow> utf16le_encode t = Some b \<Longrightarrow> utf16le_encode (s @ t) = Some (a @ b)"
  by (induction s arbitrary: a) (auto split: option.splits)

lemma unit_of_bound: "unit_of lo hi < 65536"
proof -
  have "unat lo < 256" "unat hi < 256"
    using unsigned_less [of lo, where 'a = nat] unsigned_less [of hi, where 'a = nat] by simp_all
  then show ?thesis by (simp add: unit_of_def)
qed

lemma decode_append:
  "utf16le_decode b = Some t \<Longrightarrow>
   utf16le_decode (b @ b') = map_option ((@) t) (utf16le_decode b')"
proof (induction b arbitrary: t rule: utf16le_decode.induct)
  case 1
  then show ?case by (simp add: option.map_ident)
next
  case (2 b)
  then show ?case by simp
next
  case (3 lo hi bs)
  show ?case
  proof (cases "is_low_surrogate (unit_of lo hi)")
    case True
    with 3(3) show ?thesis by simp
  next
    case nl: False
    show ?thesis
    proof (cases "is_high_surrogate (unit_of lo hi)")
      case False
      with nl 3(3) obtain t' where t': "utf16le_decode bs = Some t'" "t = unit_of lo hi # t'"
        by auto
      from 3(2) [OF nl False t'(1)] nl False t'(2) show ?thesis
        by (simp add: option.map_comp comp_def)
    next
      case True
      with nl 3(3) obtain lo2 hi2 bs2 t' where
        bs: "bs = lo2 # hi2 # bs2" and lw: "is_low_surrogate (unit_of lo2 hi2)" and
        t': "utf16le_decode bs2 = Some t'"
          "t = (65536 + (unit_of lo hi - 55296) * 1024 + (unit_of lo2 hi2 - 56320)) # t'"
        by (auto split: list.splits if_splits)
      from 3(1) [OF nl True bs refl lw t'(1)] nl True bs lw t'(2) show ?thesis
        by (simp add: option.map_comp comp_def)
    qed
  qed
qed

lemma decode_encodable: "utf16le_decode b = Some t \<Longrightarrow> encodable t"
proof (induction b arbitrary: t rule: utf16le_decode.induct)
  case 1
  then show ?case by (simp add: encodable_def)
next
  case (2 b)
  then show ?case by simp
next
  case (3 lo hi bs)
  show ?case
  proof (cases "is_low_surrogate (unit_of lo hi)")
    case True
    with 3(3) show ?thesis by simp
  next
    case nl: False
    show ?thesis
    proof (cases "is_high_surrogate (unit_of lo hi)")
      case False
      with nl 3(3) obtain t' where t': "utf16le_decode bs = Some t'" "t = unit_of lo hi # t'"
        by auto
      from 3(2) [OF nl False t'(1)] nl False t'(2) unit_of_bound [of lo hi] show ?thesis
        by (auto simp: encodable_def is_low_surrogate_def is_high_surrogate_def)
    next
      case True
      with nl 3(3) obtain lo2 hi2 bs2 t' where
        bs: "bs = lo2 # hi2 # bs2" and lw: "is_low_surrogate (unit_of lo2 hi2)" and
        t': "utf16le_decode bs2 = Some t'"
          "t = (65536 + (unit_of lo hi - 55296) * 1024 + (unit_of lo2 hi2 - 56320)) # t'"
        by (auto split: list.splits if_splits)
      from 3(1) [OF nl True bs refl lw t'(1)] True lw t'(2) show ?thesis
        by (auto simp: encodable_def is_low_surrogate_def is_high_surrogate_def)
    qed
  qed
qed

lemma is_linebreak_CR [simp]: "is_linebreak CR" and is_linebreak_LF [simp]: "is_linebreak LF"
  by (simp_all add: is_linebreak_def)

lemma is_linebreak_SEMI [simp]: "\<not> is_linebreak SEMI"
  by (simp add: is_linebreak_def)

lemma is_space_SEMI [simp]: "\<not> is_space SEMI"
  by (simp add: is_space_def)

lemma skip_lf_other [simp]: "c \<noteq> CR \<Longrightarrow> skip_lf c xs = xs"
  by (cases xs) auto

lemma splitlines_universal: "splitlines (universal_newlines t) = splitlines t"
  by (induction t rule: universal_newlines.induct) auto

lemma splitlines_Nil_iff [simp]: "splitlines t = [] \<longleftrightarrow> t = []"
  by (cases t) (auto split: list.splits)

lemma no_linebreak_Nil [simp]: "no_linebreak []"
  by (simp add: no_linebreak_def)

lemma no_linebreak_Cons [simp]: "no_linebreak (c # cs) \<longleftrightarrow> \<not> is_linebreak c \<and> no_linebreak cs"
  by (simp add: no_linebreak_def)

lemma no_linebreak_append [simp]: "no_linebreak (a @ b) \<longleftrightarrow> no_linebreak a \<and> no_linebreak b"
  by (auto simp: no_linebreak_def)

lemma splitlines_no_break: "no_linebreak l \<Longrightarrow> l \<noteq> [] \<Longrightarrow> splitlines l = [l]"
proof (induction l)
  case Nil
  then show ?case by simp
next
  case (Cons c l)
  then show ?case by (cases "l = []") auto
qed

lemma splitlines_line:
  "no_linebreak l \<Longrightarrow> is_linebreak c \<Longrightarrow>
   splitlines (l @ c # rest) = l # splitlines (skip_lf c rest)"
  by (induction l) auto

lemma splitlines_lines_no_break: "l \<in> set (splitlines t) \<Longrightarrow> no_linebreak l"
proof (induction t arbitrary: l rule: splitlines.induct)
  case 1
  then show ?case by simp
next
  case (2 c cs)
  show ?case
  proof (cases "is_linebreak c")
    case True
    with 2 show ?thesis by auto
  next
    case False
    with 2 show ?thesis by (cases "splitlines cs") auto
  qed
qed

lemma skip_lf_append:
  "cs \<noteq> [] \<Longrightarrow> skip_lf c (cs @ t1) = skip_lf c cs @ t1"
  by (cases cs) auto

lemma skip_lf_id: "t1 = [] \<or> hd t1 \<noteq> LF \<Longrightarrow> skip_lf c t1 = t1"
  by (cases t1) auto

lemma skip_lf_last:
  "cs \<noteq> [] \<Longrightarrow> is_linebreak (last cs) \<Longrightarrow> skip_lf c cs = [] \<or> is_linebreak (last (skip_lf c cs))"
  by (cases cs) (auto split: if_splits)

lemma splitlines_append:
  "t0 = [] \<or> is_linebreak (last t0) \<Longrightarrow> t1 = [] \<or> hd t1 \<noteq> LF \<Longrightarrow>
   splitlines (t0 @ t1) = splitlines t0 @ splitlines t1"
proof (induction t0 rule: splitlines.induct)
  case 1
  then show ?case by simp
next
  case (2 c cs)
  show ?case
  proof (cases "is_linebreak c")
    case True
    show ?thesis
    proof (cases "cs = []")
      case True
      with \<open>is_linebreak c\<close> 2(4) show ?thesis by (simp add: skip_lf_id)
    next
      case False
      with 2(3) have "is_linebreak (last cs)" by simp
      with False have "skip_lf c cs = [] \<or> is_linebreak (last (skip_lf c cs))"
        by (rule skip_lf_last)
      from 2(1) [OF True this 2(4)] True False show ?thesis
        by (simp add: skip_lf_append)
    qed
  next
    case False
    with 2(3) have ne: "cs \<noteq> []" by auto
    with 2(3) have "cs = [] \<or> is_linebreak (last cs)" by simp
    from 2(2) [OF False this 2(4)] False ne show ?thesis
      by (cases "splitlines cs") auto
  qed
qed

subsection \<open>strip\<close>

lemma set_strip_chars: "set (strip_chars P s) \<subseteq> set s"
proof -
  have "set (dropWhile P (rev (dropWhile P s))) \<subseteq> set (rev (dropWhile P s))"
    by (auto dest: set_dropWhileD)
  also have "\<dots> \<subseteq> set s"
    by (auto dest: set_dropWhileD)
  finally show ?thesis by (simp add: strip_chars_def)
qed

lemma strip_chars_Nil_iff: "strip_chars P s = [] \<longleftrightarrow> (\<forall>c\<in>set s. P c)"
proof
  assume "strip_chars P s = []"
  then have "\<forall>c\<in>set (rev (dropWhile P s)). P c"
    by (simp add: strip_chars_def)
  then have "dropWhile P s = []"
    by (metis hd_dropWhile list.set_sel(1) set_rev)
  then show "\<forall>c\<in>set s. P c"
    by simp
next
  assume "\<forall>c\<in>set s. P c"
  then show "strip_chars P s = []"
    by (auto simp: strip_chars_def dest: set_dropWhileD)
qed

lemma strip_chars_Nil [simp]: "strip_chars P [] = []"
  by (simp add: strip_chars_def)

lemma strip_chars_id:
  assumes "s = [] \<or> (\<not> P (hd s) \<and> \<not> P (last s))"
  shows "strip_chars P s = s"
proof (cases "s = []")
  case True
  then show ?thesis by simp
next
  case False
  with assms have h: "\<not> P (hd s)" and l: "\<not> P (last s)" by auto
  from False h have 1: "dropWhile P s = s" by (cases s) auto
  from False l have 2: "dropWhile P (rev s) = rev s"
    by (cases s rule: rev_cases) auto
  show ?thesis by (simp add: strip_chars_def 1 2)
qed

lemma clean_cell_Nil [simp]: "clean_cell [] = []"
  by (simp add: clean_cell_def strip_def)

lemma set_clean_cell: "set (clean_cell c) \<subseteq> set c"
  unfolding clean_cell_def strip_def
  by (meson set_strip_chars subset_trans)

subsection \<open>split and join\<close>

lemma split_on_nonempty [simp]: "split_on sep s \<noteq> []"
  by (induction s) (auto split: list.splits)

lemma split_on_cell: "sep \<notin> set a \<Longrightarrow> split_on sep (a @ sep # rest) = a # split_on sep rest"
  by (induction a) auto

lemma split_on_single: "sep \<notin> set a \<Longrightarrow> split_on sep a = [a]"
  by (induction a) auto

lemma split_join:
  "cells \<noteq> [] \<Longrightarrow> \<forall>c\<in>set cells. sep \<notin> set c \<Longrightarrow> split_on sep (join [sep] cells) = cells"
proof (induction cells)
  case Nil
  then show ?case by simp
next
  case (Cons a cells)
  show ?case
  proof (cases cells)
    case Nil
    with Cons.prems show ?thesis by (simp add: split_on_single)
  next
    case (Cons b bs)
    with Cons.IH Cons.prems show ?thesis by (simp add: split_on_cell)
  qed
qed

lemma split_on_no_sep: "c \<in> set (split_on sep s) \<Longrightarrow> sep \<notin> set c"
proof (induction s arbitrary: c)
  case Nil
  then show ?case by simp
next
  case (Cons x s)
  then show ?case
    by (cases "split_on sep s") (auto split: if_splits)
qed

lemma split_on_subset: "c \<in> set (split_on sep s) \<Longrightarrow> set c \<subseteq> set s"
proof (induction s arbitrary: c)
  case Nil
  then show ?case by simp
next
  case (Cons x s)
  show ?case
  proof (cases "split_on sep s")
    case Nil
    then show ?thesis by simp
  next
    case (Cons a list)
    with Cons.IH [of a] have a: "set a \<subseteq> set s" by simp
    from Cons Cons.IH have r: "\<And>d. d \<in> set list \<Longrightarrow> set d \<subseteq> set s" by simp
    from Cons.prems Cons a r show ?thesis
      by (auto split: if_splits)
  qed
qed

lemma length_split_on_append:
  "length (split_on sep (a @ sep # rest)) = length (split_on sep a) + length (split_on sep rest)"
proof (induction a)
  case Nil
  then show ?case by simp
next
  case (Cons x a)
  then show ?case
    by (cases "split_on sep (a @ sep # rest)"; cases "split_on sep a") auto
qed

lemma length_split_on_pos: "1 \<le> length (split_on sep s)"
  by (cases "split_on sep s") auto

lemma length_split_join:
  "cells \<noteq> [] \<Longrightarrow> length cells \<le> length (split_on sep (join [sep] cells))"
proof (induction cells)
  case Nil
  then show ?case by simp
next
  case (Cons a cells)
  show ?case
  proof (cases cells)
    case Nil
    then show ?thesis using length_split_on_pos [of sep a] by simp
  next
    case (Cons b bs)
    with Cons.IH length_split_on_pos [of sep a] show ?thesis
      by (simp add: length_split_on_append)
  qed
qed

lemma set_join:
  "x \<in> set (join sep cells) \<Longrightarrow> x \<in> set sep \<or> (\<exists>c\<in>set cells. x \<in> set c)"
  by (induction sep cells rule: join.induct) auto

lemma sep_in_join:
  assumes "2 \<le> length cells"
  shows "sep \<in> set (join [sep] cells)"
proof (cases cells)
  case Nil
  with assms show ?thesis by simp
next
  case (Cons a as)
  with assms show ?thesis by (cases as) auto
qed

subsection \<open>Rows\<close>

lemma length_COLUMNS [simp]: "length COLUMNS = 15"
  by (simp add: COLUMNS_def)

lemma length_pad_row: "length (pad_row r) = max 15 (length r)"
  by (simp add: pad_row_def)

lemma pad_row_id: "15 \<le> length r \<Longrightarrow> pad_row r = r"
  by (simp add: pad_row_def)

lemma pad_row_nonempty [simp]: "pad_row r \<noteq> []"
  using length_pad_row [of r] by (cases "pad_row r") auto

lemma set_pad_row: "set (pad_row r) \<subseteq> insert [] (set r)"
  by (auto simp: pad_row_def)

lemma map_clean_pad_row: "map clean_cell (pad_row r) = pad_row (map clean_cell r)"
  by (simp add: pad_row_def)

lemma parse_line_join:
  "r \<noteq> [] \<Longrightarrow> \<forall>c\<in>set r. SEMI \<notin> set c \<Longrightarrow>
   parse_line (join [SEMI] r) = pad_row (map clean_cell r)"
  by (simp add: parse_line_def split_join)

lemma strip_nonblank: "\<exists>c\<in>set l. \<not> is_space c \<Longrightarrow> strip l \<noteq> []"
  by (simp add: strip_def strip_chars_Nil_iff)

lemma strip_Nil [simp]: "strip [] = []"
  by (simp add: strip_def)

lemma padded_line_nonblank: "strip (join [SEMI] (pad_row r)) \<noteq> []"
proof -
  have "2 \<le> length (pad_row r)" by (simp add: length_pad_row)
  then have "SEMI \<in> set (join [SEMI] (pad_row r))" by (rule sep_in_join)
  then show ?thesis by (intro strip_nonblank) (auto intro: bexI [of _ SEMI])
qed

lemma no_linebreak_join:
  "\<forall>c\<in>set r. no_linebreak c \<Longrightarrow> no_linebreak (join [SEMI] r)"
  unfolding no_linebreak_def
  by (auto dest!: set_join)

lemma encodable_Nil [simp]: "encodable []"
  by (simp add: encodable_def)

lemma encodable_Cons:
  "encodable (c # cs) \<longleftrightarrow> c < 1114112 \<and> \<not> (55296 \<le> c \<and> c < 57344) \<and> encodable cs"
  by (auto simp: encodable_def)

lemma encodable_join:
  "\<forall>c\<in>set r. encodable c \<Longrightarrow> encodable (join [SEMI] r)"
  unfolding encodable_def
  by (auto dest!: set_join)

lemma encodable_CRLF [simp]: "encodable CRLF"
  by (simp add: CRLF_def encodable_def)

subsection \<open>Written text\<close>

lemma translate_newlines_id: "LF \<notin> set l \<Longrightarrow> translate_newlines p l = l"
  by (induction l) auto

lemma translate_newlines_append:
  "translate_newlines p (a @ b) = translate_newlines p a @ translate_newlines p b"
  by (induction a) auto

lemma no_linebreak_no_LF: "no_linebreak l \<Longrightarrow> LF \<notin> set l"
  by (auto simp: no_linebreak_def)

lemma translate_line:
  "no_linebreak l \<Longrightarrow> translate_newlines p (l @ CRLF) = l @ CR # linesep p"
  by (simp add: translate_newlines_append translate_newlines_id no_linebreak_no_LF CRLF_def)

lemma splitlines_written_line:
  "no_linebreak l \<Longrightarrow>
   filter (\<lambda>l. strip l \<noteq> []) (splitlines (l @ CR # linesep p @ rest)) =
   filter (\<lambda>l. strip l \<noteq> []) (l # splitlines rest)"
  by (cases p) (simp_all add: splitlines_line)

lemma nonblank_lines_written:
  "\<forall>l\<in>set ls. no_linebreak l \<Longrightarrow>
   filter (\<lambda>l. strip l \<noteq> [])
     (splitlines (concat (map (\<lambda>l. translate_newlines p (l @ CRLF)) ls))) =
   filter (\<lambda>l. strip l \<noteq> []) ls"
proof (induction ls)
  case Nil
  then show ?case by simp
next
  case (Cons l ls)
  then have nl: "no_linebreak l" by simp
  from Cons have IH:
    "filter (\<lambda>l. strip l \<noteq> [])
       (splitlines (concat (map (\<lambda>l. translate_newlines p (l @ CRLF)) ls))) =
     filter (\<lambda>l. strip l \<noteq> []) ls"
    by simp
  show ?case
    using splitlines_written_line [OF nl, of p "concat (map (\<lambda>l. translate_newlines p (l @ CRLF)) ls)"] IH
    by (simp add: translate_line [OF nl])
qed

lemma encodable_translate: "encodable s \<Longrightarrow> encodable (translate_newlines p s)"
  by (induction s) (cases p; auto simp: encodable_Cons)+

lemma write_chunks_ok:
  "\<forall>s\<in>set chunks. encodable s \<Longrightarrow>
   \<exists>bs. write_chunks p chunks = (bs, True) \<and>
        utf16le_decode bs = Some (concat (map (translate_newlines p) chunks))"
proof (induction chunks)
  case Nil
  then show ?case by simp
next
  case (Cons s chunks)
  then obtain rest where rest: "write_chunks p chunks = (rest, True)"
    "utf16le_decode rest = Some (concat (map (translate_newlines p) chunks))"
    by auto
  from Cons.prems have "encodable (translate_newlines p s)"
    by (simp add: encodable_translate)
  then obtain bs where bs: "utf16le_encode (translate_newlines p s) = Some bs"
    using encode_Some_iff by blast
  show ?case
    using rest bs encode_decode_append [OF bs, of rest] by simp
qed

subsection \<open>Reading a file whose text is known\<close>

lemma read_all_rows_text:
  "file_text files path = Some t \<Longrightarrow> read_all_rows files path = rows_of_lines (splitlines t)"
  by (auto simp: file_text_def read_all_rows_def splitlines_universal split: option.splits)

lemma read_all_rows_no_text:
  "file_text files path = None \<Longrightarrow> read_all_rows files path = []"
  by (auto simp: file_text_def read_all_rows_def split: option.splits)

lemma length_parse_line: "15 \<le> length (parse_line l)"
  by (simp add: parse_line_def length_pad_row)

lemma storable_cell_Nil [simp]: "storable_cell []"
  by (simp add: storable_cell_def)

lemma encodable_subset: "encodable t \<Longrightarrow> set c \<subseteq> set t \<Longrightarrow> encodable c"
  by (auto simp: encodable_def)

lemma no_linebreak_subset: "no_linebreak t \<Longrightarrow> set c \<subseteq> set t \<Longrightarrow> no_linebreak c"
  by (auto simp: no_linebreak_def)

lemma parse_line_storable:
  assumes "encodable l" "no_linebreak l" "c \<in> set (parse_line l)"
  shows "storable_cell c"
proof -
  from assms(3) have "c = [] \<or> c \<in> set (map clean_cell (split_on SEMI l))"
    using set_pad_row [of "map clean_cell (split_on SEMI l)"] by (auto simp: parse_line_def)
  then show ?thesis
  proof
    assume "c = []"
    then show ?thesis by simp
  next
    assume "c \<in> set (map clean_cell (split_on SEMI l))"
    then obtain d where d: "d \<in> set (split_on SEMI l)" "c = clean_cell d" by auto
    have cd: "set c \<subseteq> set d" using d(2) set_clean_cell by simp
    have dl: "set d \<subseteq> set l" using d(1) by (rule split_on_subset)
    have "SEMI \<notin> set d" using d(1) by (rule split_on_no_sep)
    with cd have "SEMI \<notin> set c" by auto
    moreover have "encodable c" using assms(1) cd dl by (auto intro: encodable_subset)
    moreover have "no_linebreak c" using assms(2) cd dl by (auto intro: no_linebreak_subset)
    ultimately show ?thesis by (simp add: storable_cell_def)
  qed
qed

lemma splitlines_subset: "l \<in> set (splitlines t) \<Longrightarrow> set l \<subseteq> set t"
proof (induction t arbitrary: l rule: splitlines.induct)
  case 1
  then show ?case by simp
next
  case (2 c cs)
  have sk: "set (skip_lf c cs) \<subseteq> set cs"
    by (cases cs) auto
  show ?case
  proof (cases "is_linebreak c")
    case True
    with 2(1) [OF True] 2(3) sk show ?thesis by auto
  next
    case False
    show ?thesis
    proof (cases "splitlines cs")
      case Nil
      with False 2(3) show ?thesis by auto
    next
      case (Cons a as)
      with 2(2) [OF False, of a] have a: "set a \<subseteq> set cs" by simp
      from Cons 2(2) [OF False] have r: "\<And>d. d \<in> set as \<Longrightarrow> set d \<subseteq> set cs" by simp
      from False Cons 2(3) a r show ?thesis by auto
    qed
  qed
qed

lemma read_rows_storable:
  assumes "r \<in> set (read_all_rows files path)" "c \<in> set r"
  shows "storable_cell c"
proof (cases "file_text files path")
  case None
  with assms show ?thesis by (simp add: read_all_rows_no_text)
next
  case (Some t)
  then obtain bs where "utf16le_decode bs = Some t"
    by (auto simp: file_text_def split: option.splits)
  then have enc: "encodable t" by (rule decode_encodable)
  from assms(1) Some obtain l where l: "l \<in> set (splitlines t)" "r = parse_line l"
    by (auto simp: read_all_rows_text rows_of_lines_def)
  have "encodable l" using enc splitlines_subset [OF l(1)] by (rule encodable_subset)
  moreover have "no_linebreak l" using l(1) by (rule splitlines_lines_no_break)
  ultimately show ?thesis using assms(2) l(2) by (auto intro: parse_line_storable)
qed

lemma read_rows_length:
  "r \<in> set (read_all_rows files path) \<Longrightarrow> 15 \<le> length r"
  by (cases "file_text files path")
     (auto simp: read_all_rows_no_text read_all_rows_text rows_of_lines_def length_parse_line)

subsection \<open>Reading back what the rewriting loop wrote\<close>

lemma storable_row_line:
  assumes "\<forall>c\<in>set r. storable_cell c"
  shows "encodable (row_line r)" and "no_linebreak (join [SEMI] (pad_row r))"
    and "parse_line (join [SEMI] (pad_row r)) = map clean_cell (pad_row r)"
proof -
  have p: "\<forall>c\<in>set (pad_row r). storable_cell c"
    using assms set_pad_row [of r] by auto
  show "encodable (row_line r)"
    using p by (simp add: row_line_def encodable_join storable_cell_def)
  show "no_linebreak (join [SEMI] (pad_row r))"
    using p by (simp add: no_linebreak_join storable_cell_def)
  have "parse_line (join [SEMI] (pad_row r)) = pad_row (map clean_cell (pad_row r))"
    using p by (simp add: parse_line_join storable_cell_def)
  also have "\<dots> = map clean_cell (pad_row r)"
    by (simp add: pad_row_id length_pad_row)
  finally show "parse_line (join [SEMI] (pad_row r)) = map clean_cell (pad_row r)" .
qed

lemma rows_of_written_rows:
  assumes "\<forall>r\<in>set rows. \<forall>c\<in>set r. storable_cell c"
  shows "rows_of_lines (splitlines (concat (map (translate_newlines p) (map row_line rows)))) =
         map (\<lambda>r. map clean_cell (pad_row r)) rows"
proof -
  let ?ls = "map (\<lambda>r. join [SEMI] (pad_row r)) rows"
  have nb: "\<forall>l\<in>set ?ls. no_linebreak l"
    using assms storable_row_line(2) by auto
  have "concat (map (translate_newlines p) (map row_line rows)) =
        concat (map (\<lambda>l. translate_newlines p (l @ CRLF)) ?ls)"
    by (simp add: row_line_def comp_def)
  then have "rows_of_lines (splitlines (concat (map (translate_newlines p) (map row_line rows)))) =
             map parse_line (filter (\<lambda>l. strip l \<noteq> []) ?ls)"
    using nonblank_lines_written [OF nb, of p] by (simp add: rows_of_lines_def)
  also have "filter (\<lambda>l. strip l \<noteq> []) ?ls = ?ls"
    by (simp add: padded_line_nonblank)
  also have "map parse_line ?ls = map (\<lambda>r. map clean_cell (pad_row r)) rows"
    using assms storable_row_line(3) by simp
  finally show ?thesis .
qed

lemma write_rows_read:
  assumes "\<forall>r\<in>set rows. \<forall>c\<in>set r. storable_cell c"
  shows "snd (write_rows p files path rows)"
    and "read_all_rows (fst (write_rows p files path rows)) path =
         map (\<lambda>r. map clean_cell (pad_row r)) rows"
    and "file_text (fst (write_rows p files path rows)) path =
         Some (concat (map (translate_newlines p) (map row_line rows)))"
    and "\<And>q. q \<noteq> path \<Longrightarrow> fst (write_rows p files path rows) q = files q"
proof -
  have "\<forall>s\<in>set (map row_line rows). encodable s"
    using assms storable_row_line(1) by auto
  then obtain bs where bs: "write_chunks p (map row_line rows) = (bs, True)"
    "utf16le_decode bs = Some (concat (map (translate_newlines p) (map row_line rows)))"
    using write_chunks_ok by blast
  then have w: "write_rows p files path rows = (files(path \<mapsto> bs), True)"
    by (simp add: write_rows_def open_write_def)
  show "snd (write_rows p files path rows)" by (simp add: w)
  show ft: "file_text (fst (write_rows p files path rows)) path =
         Some (concat (map (translate_newlines p) (map row_line rows)))"
    by (simp add: w file_text_def bs(2))
  show "read_all_rows (fst (write_rows p files path rows)) path =
         map (\<lambda>r. map clean_cell (pad_row r)) rows"
    using read_all_rows_text [OF ft] rows_of_written_rows [OF assms] by simp
  show "\<And>q. q \<noteq> path \<Longrightarrow> fst (write_rows p files path rows) q = files q"
    by (simp add: w)
qed

subsection \<open>Concrete strings\<close>

lemma of_char_less_256: "(of_char c :: nat) < 256"
proof -
  have "(of_char c :: nat) mod 256 = of_char c" by (rule of_char_mod_256)
  then show ?thesis by (metis mod_less_divisor zero_less_numeral)
qed

lemma encodable_ustr [simp]: "encodable (ustr s)"
proof -
  have "\<forall>c\<in>set (ustr s). c < 256"
    using of_char_less_256 by (auto simp: ustr_def)
  then show ?thesis
    unfolding encodable_def by fastforce
qed

lemma clean_COLUMNS: "map clean_cell COLUMNS = COLUMNS"
  by (simp add: COLUMNS_def ustr_def clean_cell_def strip_def strip_chars_def is_space_def)

lemma COLUMNS_no_SEMI: "\<forall>c\<in>set COLUMNS. SEMI \<notin> set c"
  by (simp add: COLUMNS_def ustr_def)

lemma COLUMNS_no_linebreak: "\<forall>c\<in>set COLUMNS. no_linebreak c"
  by (simp add: COLUMNS_def ustr_def is_linebreak_def)

lemma COLUMNS_encodable: "\<forall>c\<in>set COLUMNS. encodable c"
  by (simp add: COLUMNS_def)

lemma COLUMNS_nonempty [simp]: "COLUMNS \<noteq> []"
  by (simp add: COLUMNS_def)

lemma parse_header: "parse_line (join [SEMI] COLUMNS) = COLUMNS"
  using parse_line_join [OF COLUMNS_nonempty COLUMNS_no_SEMI]
  by (simp add: clean_COLUMNS pad_row_id)

lemma header_nonblank: "strip (join [SEMI] COLUMNS) \<noteq> []"
  by (intro strip_nonblank bexI [of _ SEMI]) (simp_all add: sep_in_join)

lemma header_no_linebreak: "no_linebreak (join [SEMI] COLUMNS)"
  using COLUMNS_no_linebreak by (rule no_linebreak_join)

lemma header_encodable: "encodable header_line"
  using COLUMNS_encodable by (simp add: header_line_def encodable_join)

lemma version_text: "version_line = ustr ''#Version: 1.0.0.0'' @ replicate 14 SEMI @ CRLF"
  by (simp add: version_line_def)

lemma version_encodable: "encodable version_line"
  by (simp add: version_text encodable_def CRLF_def) (simp add: ustr_def)

lemma replicate_14: "replicate 14 x = [x,x,x,x,x,x,x,x,x,x,x,x,x,x]"
  by (simp add: numeral_eq_Suc)

lemma parse_bom_version:
  "parse_line (65279 # ustr ''#Version: 1.0.0.0'' @ replicate 14 SEMI) = version_cells"
  by (simp add: parse_line_def version_cells_def ustr_def pad_row_def replicate_14
      clean_cell_def strip_def strip_chars_def is_space_def)

lemma bom_version_nonblank: "strip (65279 # ustr ''#Version: 1.0.0.0'' @ replicate 14 SEMI) \<noteq> []"
  by (intro strip_nonblank bexI [of _ SEMI]) (simp_all add: replicate_14)

lemma bom_version_no_linebreak:
  "no_linebreak (65279 # ustr ''#Version: 1.0.0.0'' @ replicate 14 SEMI)"
  by (simp add: ustr_def replicate_14 is_linebreak_def)

lemma BOM_unit: "BOM_UTF16_LE = unit_bytes 65279"
  by (simp add: BOM_UTF16_LE_def unit_bytes_def)

lemma create_new_file_result:
  "fst (create_new_file files path) = Done"
  "file_text (snd (create_new_file files path)) path = Some (65279 # version_line @ header_line)"
  "take 2 (the (snd (create_new_file files path) path)) = [0xFF, 0xFE]"
proof -
  obtain v where v: "utf16le_encode version_line = Some v"
    using version_encodable encode_Some_iff by blast
  obtain h where h: "utf16le_encode header_line = Some h"
    using header_encodable encode_Some_iff by blast
  have c: "create_new_file files path = (Done, files(path \<mapsto> BOM_UTF16_LE @ v @ h))"
    by (simp add: create_new_file_def v h)
  show "fst (create_new_file files path) = Done" by (simp add: c)
  have "utf16le_decode (v @ h) = Some (version_line @ header_line)"
    using encode_decode_append [OF v, of h] encode_decode [OF h] by simp
  then have "utf16le_decode (BOM_UTF16_LE @ v @ h) = Some (65279 # version_line @ header_line)"
    using decode_unit [of 65279 "v @ h"]
    by (simp add: BOM_unit is_low_surrogate_def is_high_surrogate_def)
  then show "file_text (snd (create_new_file files path)) path =
      Some (65279 # version_line @ header_line)"
    by (simp add: c file_text_def)
  show "take 2 (the (snd (create_new_file files path) path)) = [0xFF, 0xFE]"
    by (simp add: c BOM_UTF16_LE_def)
qed

lemma rows_of_two_lines:
  assumes "no_linebreak a" "no_linebreak b" "strip a \<noteq> []" "strip b \<noteq> []"
  shows "rows_of_lines (splitlines (a @ CRLF @ b @ CRLF)) = [parse_line a, parse_line b]"
proof -
  have "splitlines (a @ CR # LF # b @ CR # LF # []) = a # splitlines (b @ CR # LF # [])"
    using assms(1) by (simp add: splitlines_line)
  also have "splitlines (b @ CR # LF # []) = [b]"
    using assms(2) by (simp add: splitlines_line)
  finally show ?thesis
    using assms(3,4) by (simp add: rows_of_lines_def CRLF_def)
qed

lemma create_new_file_rows:
  "read_all_rows (snd (create_new_file files path)) path = [version_cells, COLUMNS]"
proof -
  have "65279 # version_line @ header_line =
        (65279 # ustr ''#Version: 1.0.0.0'' @ replicate 14 SEMI) @ CRLF @ join [SEMI] COLUMNS @ CRLF"
    by (simp add: version_text header_line_def)
  then show ?thesis
    using read_all_rows_text [OF create_new_file_result(2), of files path]
      rows_of_two_lines [OF bom_version_no_linebreak header_no_linebreak
        bom_version_nonblank header_nonblank]
    by (simp add: parse_bom_version parse_header)
qed

text \<open>
  Claim C6, as amended. \<open>create_new_file\<close> succeeds and the file starts with the byte order
  mark \<open>FF FE\<close>. \<open>read_all_rows\<close> then returns exactly two rows of 15 cells each: the
  version row, whose cell 0 is the code point U+FEFF followed by \<open>#Version: 1.0.0.0\<close> and
  whose other cells are empty, and the header row with the 15 column names.
\<close>

theorem C6_create_then_read:
  "fst (create_new_file files path) = Done \<and>
   take 2 (the (snd (create_new_file files path) path)) = [0xFF, 0xFE] \<and>
   read_all_rows (snd (create_new_file files path)) path =
     [(0xFEFF # ustr ''#Version: 1.0.0.0'') # replicate 14 [], COLUMNS] \<and>
   length COLUMNS = 15"
  using create_new_file_result(1,3) [of files path] create_new_file_rows [of files path]
  by (simp add: version_cells_def)

text \<open>
  The claim as stated fails: cell 0 of the version row is not the string
  \<open>#Version: 1.0.0.0\<close>, because the decoded byte order mark stays in front of it.
\<close>

theorem C6_version_cell_counterexample:
  "hd (hd (read_all_rows (snd (create_new_file Map.empty ''x.csv'')) ''x.csv'')) \<noteq>
   ustr ''#Version: 1.0.0.0''"
  by (simp add: create_new_file_rows version_cells_def)

lemma display_row_Some: "15 \<le> length r \<Longrightarrow> display_row r \<noteq> None"
  by (cases r) (simp_all add: display_row_def)

lemma set_data_rows_preview: "set (data_rows_preview rows) \<subseteq> set rows"
  by (auto simp: data_rows_preview_def dest: in_set_dropD)

lemma set_order_for_display [simp]: "set (order_for_display py rows) = set rows"
  by (simp add: order_for_display_def)

lemma preview_no_failure: "None \<notin> set (preview py files path)"
proof
  assume "None \<in> set (preview py files path)"
  then obtain r where r: "r \<in> set (data_rows_preview (read_all_rows files path))"
    "display_row r = None"
    by (auto simp: preview_def)
  from r(1) have "r \<in> set (read_all_rows files path)"
    using set_data_rows_preview by blast
  then have "15 \<le> length r" by (rule read_rows_length)
  then have "display_row r \<noteq> None" by (rule display_row_Some)
  with r(2) show False by simp
qed

text \<open>
  Claim C10. Every row that \<open>read_all_rows\<close> returns has at least \<open>len(COLUMNS)\<close> = 15
  cells, whatever the file holds, so the indices 0 to 14 are within the row; the
  projection to a display row succeeds on each of them, and the preview, which applies it
  to the sorted data rows, never raises.
\<close>

theorem C10_rows_reach_schema_length:
  "(\<forall>r\<in>set (read_all_rows files path).
      length COLUMNS \<le> length r \<and> (\<forall>i<15. i < length r) \<and> display_row r \<noteq> None) \<and>
   None \<notin> set (preview py files path)"
proof -
  have "length COLUMNS \<le> length r \<and> (\<forall>i<15. i < length r) \<and> display_row r \<noteq> None"
    if "r \<in> set (read_all_rows files path)" for r
  proof -
    from that have "15 \<le> length r" by (rule read_rows_length)
    then show ?thesis using display_row_Some [of r] by auto
  qed
  then show ?thesis using preview_no_failure by blast
qed

theorem C10_rows_reach_schema_length_witness:
  "read_all_rows (snd (create_new_file Map.empty ''x.csv'')) ''x.csv'' = [version_cells, COLUMNS] \<and>
   length COLUMNS \<le> length version_cells \<and> display_row version_cells \<noteq> None \<and>
   length COLUMNS \<le> length COLUMNS \<and> display_row COLUMNS \<noteq> None"
  using C10_rows_reach_schema_length [of "snd (create_new_file Map.empty ''x.csv'')" "''x.csv''"]
  by (simp add: create_new_file_rows)

subsection \<open>Display order\<close>

lemma int_key_below_str_key:
  "is_int_key a \<Longrightarrow> \<not> is_int_key b \<Longrightarrow> a < b"
  by (cases a; cases b) (simp_all add: is_int_key_def less_sort_key_def)

lemma sorted_split_by_tag:
  "sorted (map f ys) \<Longrightarrow>
   ys = filter (\<lambda>r. is_int_key (f r)) ys @ filter (\<lambda>r. \<not> is_int_key (f r)) ys"
proof (induction ys)
  case Nil
  then show ?case by simp
next
  case (Cons y ys)
  then have IH: "ys = filter (\<lambda>r. is_int_key (f r)) ys @ filter (\<lambda>r. \<not> is_int_key (f r)) ys"
    and le: "\<forall>z\<in>set ys. f y \<le> f z"
    by simp_all
  show ?case
  proof (cases "is_int_key (f y)")
    case True
    with IH show ?thesis by simp
  next
    case False
    have "\<forall>z\<in>set ys. \<not> is_int_key (f z)"
    proof
      fix z assume z: "z \<in> set ys"
      show "\<not> is_int_key (f z)"
      proof
        assume "is_int_key (f z)"
        with False have "f z < f y" by (intro int_key_below_str_key)
        with le z show False by auto
      qed
    qed
    then have "filter (\<lambda>r. is_int_key (f r)) ys = []" "filter (\<lambda>r. \<not> is_int_key (f r)) ys = ys"
      by (simp_all add: filter_empty_conv filter_id_conv)
    with False show ?thesis by simp
  qed
qed

lemma order_for_display_split:
  "order_for_display py rows =
   order_for_display py (filter (\<lambda>r. is_int_key (row_key py r)) rows) @
   order_for_display py (filter (\<lambda>r. \<not> is_int_key (row_key py r)) rows)"
  using sorted_split_by_tag [of "row_key py" "sort_key (row_key py) rows"]
  by (simp add: order_for_display_def filter_sort)

text \<open>
  Claim C2, as amended. For records whose cells can be encoded, hold no delimiter and no
  line break, and are left as they are by the stripping on load, the rewriting loop
  followed by \<open>read_all_rows\<close> gives back each record, padded to 15 cells.
\<close>

theorem C2_round_trip_plain:
  assumes "\<forall>r\<in>set records. \<forall>c\<in>set r. plain_cell c"
  shows "snd (write_rows p files path records) \<and>
         read_all_rows (fst (write_rows p files path records)) path = map pad_row records"
proof -
  have st: "\<forall>r\<in>set records. \<forall>c\<in>set r. storable_cell c"
    using assms by (simp add: plain_cell_def)
  have "map clean_cell (pad_row r) = pad_row r" if "r \<in> set records" for r
  proof -
    from that assms have "map clean_cell r = r"
      by (simp add: plain_cell_def map_idI)
    then show ?thesis by (simp add: map_clean_pad_row)
  qed
  then have "map (\<lambda>r. map clean_cell (pad_row r)) records = map pad_row records"
    by simp
  then show ?thesis
    using write_rows_read(1,2) [OF st, of p files path] by simp
qed

lemma plain_cell_7: "plain_cell (ustr ''7'')" and plain_cell_Digital: "plain_cell (ustr ''Digital'')"
  by (simp_all add: plain_cell_def storable_cell_def clean_cell_def strip_def strip_chars_def
      is_space_def ustr_def is_linebreak_def encodable_def)

theorem C2_round_trip_plain_witness:
  "snd (write_rows Posix Map.empty ''x.csv'' [[ustr ''7'', ustr ''Digital'']]) \<and>
   read_all_rows (fst (write_rows Posix Map.empty ''x.csv'' [[ustr ''7'', ustr ''Digital'']]))
     ''x.csv'' = [pad_row [ustr ''7'', ustr ''Digital'']]"
  using C2_round_trip_plain [of "[[ustr ''7'', ustr ''Digital'']]" Posix Map.empty "''x.csv''"]
  by (simp add: plain_cell_7 plain_cell_Digital)

text \<open>
  The claim as stated fails: the field \<open>'a'\<close> (apostrophe, a, apostrophe) is sanitized, it
  is what sanitization makes of \<open>"a"\<close>, and it comes back from the file as \<open>a\<close>.
\<close>

theorem C2_apostrophe_counterexample:
  "sanitize_field (PyStr [SQUOTE, 97, SQUOTE]) = [SQUOTE, 97, SQUOTE] \<and>
   sanitize_field (PyStr [DQUOTE, 97, DQUOTE]) = [SQUOTE, 97, SQUOTE] \<and>
   read_all_rows (fst (write_rows Posix Map.empty ''x.csv'' [[[SQUOTE, 97, SQUOTE]]])) ''x.csv'' =
     [pad_row [[97]]] \<and>
   pad_row [[97]] \<noteq> pad_row [[SQUOTE, 97, SQUOTE]]"
proof -
  have st: "\<forall>r\<in>set [[[SQUOTE, 97, SQUOTE]]]. \<forall>c\<in>set r. storable_cell c"
    by (simp add: storable_cell_def encodable_def is_linebreak_def)
  have cl: "clean_cell [SQUOTE, 97, SQUOTE] = [97]"
    by (simp add: clean_cell_def strip_def strip_chars_def is_space_def)
  show ?thesis
    using write_rows_read(2) [OF st, of Posix Map.empty "''x.csv''"]
    by (simp add: cl map_clean_pad_row replace_char_def pad_row_def)
qed

subsection \<open>Appending a row\<close>

lemma write_chunks_single:
  "encodable s \<Longrightarrow>
   \<exists>bs. write_chunks p [s] = (bs, True) \<and> utf16le_decode bs = Some (translate_newlines p s)"
  using write_chunks_ok [of "[s]" p] by simp

lemma two_fields_nonblank:
  assumes "2 \<le> length vals"
  shows "strip (join [SEMI] (map sanitize_field vals)) \<noteq> []"
proof -
  have "SEMI \<in> set (join [SEMI] (map sanitize_field vals))"
    using assms by (intro sep_in_join) simp
  then show ?thesis
    by (intro strip_nonblank bexI [of _ SEMI]) simp_all
qed

lemma sanitized_line:
  assumes "\<forall>v\<in>set vals. encodable (sanitize_field v) \<and> no_linebreak (sanitize_field v)"
    and "strip (join [SEMI] (map sanitize_field vals)) \<noteq> []"
  shows "encodable (join [SEMI] (map sanitize_field vals) @ CRLF)"
    and "no_linebreak (join [SEMI] (map sanitize_field vals))"
    and "join [SEMI] (map sanitize_field vals) \<noteq> []"
    and "hd (join [SEMI] (map sanitize_field vals)) \<noteq> LF"
proof -
  let ?l = "join [SEMI] (map sanitize_field vals)"
  show "encodable (?l @ CRLF)"
    using assms(1) by (simp add: encodable_join)
  show nb: "no_linebreak ?l"
    using assms(1) by (simp add: no_linebreak_join)
  from assms(2) show ne: "?l \<noteq> []" by auto
  from ne nb have "\<not> is_linebreak (hd ?l)"
    by (cases ?l) simp_all
  then show "hd ?l \<noteq> LF" by auto
qed

lemma rows_of_lines_append:
  "rows_of_lines (a @ b) = rows_of_lines a @ rows_of_lines b"
  by (simp add: rows_of_lines_def)

lemma rows_of_one_written_line:
  assumes "no_linebreak l" "strip l \<noteq> []"
  shows "rows_of_lines (splitlines (translate_newlines p (l @ CRLF))) = [parse_line l]"
  using nonblank_lines_written [of "[l]" p] assms by (simp add: rows_of_lines_def)

lemma append_existing:
  assumes ft: "file_text files path = Some t"
    and brk: "t = [] \<or> is_linebreak (last t)"
    and cells: "\<forall>v\<in>set vals. encodable (sanitize_field v) \<and> no_linebreak (sanitize_field v)"
    and nonblank: "strip (join [SEMI] (map sanitize_field vals)) \<noteq> []"
  shows "snd (append_row_utf16le p files path vals)"
    and "file_text (fst (append_row_utf16le p files path vals)) path =
         Some (t @ translate_newlines p (join [SEMI] (map sanitize_field vals) @ CRLF))"
    and "read_all_rows (fst (append_row_utf16le p files path vals)) path =
         read_all_rows files path @ [parse_line (join [SEMI] (map sanitize_field vals))]"
proof -
  let ?l = "join [SEMI] (map sanitize_field vals)"
  note sl = sanitized_line [OF cells nonblank]
  from ft obtain old where old: "files path = Some old" "utf16le_decode old = Some t"
    by (auto simp: file_text_def split: option.splits)
  obtain bs where bs: "write_chunks p [?l @ CRLF] = (bs, True)"
    "utf16le_decode bs = Some (translate_newlines p (?l @ CRLF))"
    using write_chunks_single [OF sl(1)] by blast
  have ap: "append_row_utf16le p files path vals = (files(path \<mapsto> old @ bs), True)"
    using bs(1)
    by (simp add: append_row_utf16le_def ensure_file_and_header_def old open_append_def
        del: write_chunks.simps)
  show "snd (append_row_utf16le p files path vals)" by (simp add: ap)
  have dec: "utf16le_decode (old @ bs) = Some (t @ translate_newlines p (?l @ CRLF))"
    using decode_append [OF old(2), of bs] bs(2) by simp
  then show ft': "file_text (fst (append_row_utf16le p files path vals)) path =
         Some (t @ translate_newlines p (?l @ CRLF))"
    by (simp add: ap file_text_def)
  have tl: "translate_newlines p (?l @ CRLF) = ?l @ CR # linesep p"
    using sl(2) by (rule translate_line)
  have "hd (translate_newlines p (?l @ CRLF)) \<noteq> LF"
    using sl(3,4) by (simp add: tl)
  then have "splitlines (t @ translate_newlines p (?l @ CRLF)) =
        splitlines t @ splitlines (translate_newlines p (?l @ CRLF))"
    using brk by (intro splitlines_append) simp_all
  then show "read_all_rows (fst (append_row_utf16le p files path vals)) path =
         read_all_rows files path @ [parse_line ?l]"
    using read_all_rows_text [OF ft'] read_all_rows_text [OF ft]
      rows_of_one_written_line [OF sl(2) nonblank, of p]
    by (simp add: rows_of_lines_append)
qed

lemma ensure_missing:
  assumes "files path = None"
  shows "snd (ensure_file_and_header p files path)"
    and "file_text (fst (ensure_file_and_header p files path)) path =
         Some (translate_newlines p header_line)"
proof -
  obtain bs where bs: "write_chunks p [header_line] = (bs, True)"
    "utf16le_decode bs = Some (translate_newlines p header_line)"
    using write_chunks_single [OF header_encodable] by blast
  have e: "ensure_file_and_header p files path = (files(path \<mapsto> bs), True)"
    using assms bs(1)
    by (simp add: ensure_file_and_header_def open_write_def del: write_chunks.simps)
  show "snd (ensure_file_and_header p files path)" by (simp add: e)
  show "file_text (fst (ensure_file_and_header p files path)) path =
         Some (translate_newlines p header_line)"
    by (simp add: e file_text_def bs)
qed

lemma ensure_missing_rows:
  assumes "files path = None"
  shows "read_all_rows (fst (ensure_file_and_header p files path)) path = [COLUMNS]"
  using read_all_rows_text [OF ensure_missing(2) [of files path p, OF assms]]
    rows_of_one_written_line [OF header_no_linebreak header_nonblank, of p]
  by (simp add: header_line_def parse_header)

lemma translated_line_last:
  "no_linebreak l \<Longrightarrow> is_linebreak (last (translate_newlines p (l @ CRLF)))"
  by (cases p) (simp_all add: translate_line)

lemma append_unfold_ensure:
  "append_row_utf16le p files path vals =
     (if files path = None
      then append_row_utf16le p (fst (ensure_file_and_header p files path)) path vals
      else append_row_utf16le p files path vals)"
proof (cases "files path")
  case None
  obtain bs where bs: "write_chunks p [header_line] = (bs, True)"
    using write_chunks_single [OF header_encodable] by blast
  show ?thesis
    using None bs
    by (simp add: append_row_utf16le_def ensure_file_and_header_def open_write_def
        del: write_chunks.simps)
next
  case (Some a)
  then show ?thesis by simp
qed

lemma append_missing:
  assumes miss: "files path = None"
    and cells: "\<forall>v\<in>set vals. encodable (sanitize_field v) \<and> no_linebreak (sanitize_field v)"
    and len: "2 \<le> length vals"
  shows "snd (append_row_utf16le p files path vals)"
    and "file_text (fst (append_row_utf16le p files path vals)) path =
         Some (translate_newlines p header_line @
               translate_newlines p (join [SEMI] (map sanitize_field vals) @ CRLF))"
    and "read_all_rows (fst (append_row_utf16le p files path vals)) path =
         [COLUMNS, parse_line (join [SEMI] (map sanitize_field vals))]"
proof -
  let ?f1 = "fst (ensure_file_and_header p files path)"
  have eq: "append_row_utf16le p files path vals = append_row_utf16le p ?f1 path vals"
    using append_unfold_ensure [of p files path vals] miss by simp
  have ft: "file_text ?f1 path = Some (translate_newlines p header_line)"
    using ensure_missing(2) [of files path p] miss by simp
  have brk: "translate_newlines p header_line = [] \<or>
             is_linebreak (last (translate_newlines p header_line))"
    using translated_line_last [OF header_no_linebreak, of p] by (simp add: header_line_def)
  note ae = append_existing [OF ft brk cells two_fields_nonblank [OF len], of p]
  show "snd (append_row_utf16le p files path vals)"
    using ae(1) by (simp add: eq)
  show "file_text (fst (append_row_utf16le p files path vals)) path =
         Some (translate_newlines p header_line @
               translate_newlines p (join [SEMI] (map sanitize_field vals) @ CRLF))"
    using ae(2) by (simp add: eq)
  show "read_all_rows (fst (append_row_utf16le p files path vals)) path =
         [COLUMNS, parse_line (join [SEMI] (map sanitize_field vals))]"
    using ae(3) ensure_missing_rows [of files path p] miss by (simp add: eq)
qed

subsection \<open>The duplicate check\<close>

lemma id_exists_loop_None:
  "id_exists_loop ident None rows \<longleftrightarrow> (\<exists>r\<in>set rows. matches ident r)"
  by (induction rows) (auto simp: matches_def)

lemma data_rows_preview_drop: "data_rows_preview rows = drop 2 rows"
  by (simp add: data_rows_preview_def)

subsection \<open>The sample records\<close>

lemma sample_record_cells:
  "\<forall>v\<in>set sample_record. encodable (sanitize_field v) \<and> no_linebreak (sanitize_field v)"
  by (simp add: sample_record_def replace_char_def encodable_def is_linebreak_def ustr_def)

lemma sample_record_line:
  "join [SEMI] (map sanitize_field sample_record) = join [SEMI] sample_row"
  by (simp add: sample_record_def sample_row_def replace_char_def ustr_def)

lemma sample_row_parse: "parse_line (join [SEMI] sample_row) = sample_row"
proof -
  have ne: "sample_row \<noteq> []" by (simp add: sample_row_def)
  have ns: "\<forall>c\<in>set sample_row. SEMI \<notin> set c"
    by (simp add: sample_row_def ustr_def)
  have cl: "map clean_cell sample_row = sample_row"
    by (simp add: sample_row_def ustr_def clean_cell_def strip_def strip_chars_def is_space_def)
  have "parse_line (join [SEMI] sample_row) = pad_row (map clean_cell sample_row)"
    using ne ns by (rule parse_line_join)
  also have "\<dots> = pad_row sample_row"
    by (simp only: cl)
  also have "\<dots> = sample_row"
    by (rule pad_row_id) (simp add: sample_row_def)
  finally show ?thesis .
qed

lemma sample_record_length: "2 \<le> length sample_record"
  by (simp add: sample_record_def)

lemma quoted_record_cells:
  "\<forall>v\<in>set quoted_record. encodable (sanitize_field v) \<and> no_linebreak (sanitize_field v)"
  by (simp add: quoted_record_def replace_char_def encodable_def is_linebreak_def ustr_def)

lemma quoted_record_parse:
  "hd (parse_line (join [SEMI] (map sanitize_field quoted_record))) = [97]"
  by (simp add: quoted_record_def replace_char_def ustr_def parse_line_def pad_row_def
      clean_cell_def strip_def strip_chars_def is_space_def)

lemma id_exists_None:
  "id_exists files path ident None \<longleftrightarrow>
   (\<exists>r\<in>set (drop 2 (read_all_rows files path)). matches ident r)"
  by (simp add: id_exists_def id_exists_loop_None data_rows_preview_drop)

lemma sample_append_missing:
  "snd (append_row_utf16le p Map.empty ''x.csv'' sample_record)"
  "file_text (fst (append_row_utf16le p Map.empty ''x.csv'' sample_record)) ''x.csv'' =
     Some (translate_newlines p header_line @ translate_newlines p (join [SEMI] sample_row @ CRLF))"
  "read_all_rows (fst (append_row_utf16le p Map.empty ''x.csv'' sample_record)) ''x.csv'' =
     [COLUMNS, sample_row]"
proof -
  have miss: "(Map.empty :: fs) ''x.csv'' = None" by simp
  note am = append_missing [of Map.empty "''x.csv''" sample_record p, OF miss sample_record_cells
      sample_record_length]
  show "snd (append_row_utf16le p Map.empty ''x.csv'' sample_record)"
    by (rule am(1))
  show "file_text (fst (append_row_utf16le p Map.empty ''x.csv'' sample_record)) ''x.csv'' =
     Some (translate_newlines p header_line @ translate_newlines p (join [SEMI] sample_row @ CRLF))"
    using am(2) by (simp only: sample_record_line)
  show "read_all_rows (fst (append_row_utf16le p Map.empty ''x.csv'' sample_record)) ''x.csv'' =
     [COLUMNS, sample_row]"
    using am(3) by (simp only: sample_record_line sample_row_parse)
qed

lemma header_line_head: "take 3 header_line = ustr ''ID;''"
  by (simp add: header_line_def COLUMNS_def ustr_def)

text \<open>
  Claim C5, evaluated on the code. Appending the sample record to a path that does not
  exist succeeds; the file then holds the header line followed by the record's line,
  without byte order mark and without version line, and \<open>read_all_rows\<close> returns the
  header row and the record. The readers drop the first two rows, so the record is no data
  row: the preview is empty and \<open>id_exists\<close> does not find its identifier.
\<close>

theorem C5_append_to_missing_path:
  "snd (append_row_utf16le p Map.empty ''x.csv'' sample_record) \<and>
   file_text (fst (append_row_utf16le p Map.empty ''x.csv'' sample_record)) ''x.csv'' =
     Some (translate_newlines p header_line @
           translate_newlines p (join [SEMI] sample_row @ CRLF)) \<and>
   take 3 header_line = ustr ''ID;'' \<and>
   read_all_rows (fst (append_row_utf16le p Map.empty ''x.csv'' sample_record)) ''x.csv'' =
     [COLUMNS, sample_row] \<and>
   data_rows_preview
     (read_all_rows (fst (append_row_utf16le p Map.empty ''x.csv'' sample_record)) ''x.csv'') = [] \<and>
   preview py (fst (append_row_utf16le p Map.empty ''x.csv'' sample_record)) ''x.csv'' = [] \<and>
   \<not> id_exists (fst (append_row_utf16le p Map.empty ''x.csv'' sample_record)) ''x.csv''
       (ustr ''1'') None"
  using sample_append_missing [of p] header_line_head
  by (simp add: data_rows_preview_def preview_def order_for_display_def id_exists_def)

subsection \<open>The integer key\<close>

lemma digits_of_range: "c \<in> set (digits_of n) \<Longrightarrow> 48 \<le> c \<and> c \<le> 57"
proof (induction n arbitrary: c rule: digits_of.induct)
  case (1 n)
  show ?case
  proof (cases "n < 10")
    case True
    with 1(2) show ?thesis by (simp add: digits_of.simps [of n])
  next
    case False
    have "n mod 10 < 10" by simp
    with False 1 show ?thesis
      by (auto simp: digits_of.simps [of n])
  qed
qed

lemma digits_of_nonempty [simp]: "digits_of n \<noteq> []"
  by (simp add: digits_of.simps [of n])

lemma parse_digits_numeral:
  "parse_digits py acc after (digits_of n @ rest) =
   parse_digits py (acc * 10 ^ length (digits_of n) + n) True rest"
proof (induction n arbitrary: acc after rest rule: digits_of.induct)
  case (1 n)
  show ?case
  proof (cases "n < 10")
    case True
    then show ?thesis
      by (simp add: digits_of.simps [of n] digit_value_def mult.commute)
  next
    case False
    have m: "n mod 10 \<le> 9" by presburger
    have d: "digits_of n = digits_of (n div 10) @ [48 + n mod 10]"
      using False by (simp add: digits_of.simps [of n])
    have "parse_digits py acc after (digits_of n @ rest) =
          parse_digits py (acc * 10 ^ length (digits_of (n div 10)) + n div 10) True
            ((48 + n mod 10) # rest)"
      using 1 [OF False, of acc after "(48 + n mod 10) # rest"] by (simp add: d)
    also have "\<dots> = parse_digits py
        (10 * (acc * 10 ^ length (digits_of (n div 10)) + n div 10) + n mod 10) True rest"
      using m by (simp add: digit_value_def)
    also have "10 * (acc * 10 ^ length (digits_of (n div 10)) + n div 10) + n mod 10 =
               acc * 10 ^ length (digits_of n) + n"
      by (simp add: d algebra_simps)
    finally show ?thesis .
  qed
qed

lemma not_int_space_digit: "48 \<le> c \<Longrightarrow> c \<le> 57 \<Longrightarrow> \<not> is_int_space c"
  by (simp add: is_int_space_def)

lemma strip_int_space_numeral: "strip_chars is_int_space (digits_of n) = digits_of n"
proof (rule strip_chars_id)
  have "hd (digits_of n) \<in> set (digits_of n)" "last (digits_of n) \<in> set (digits_of n)"
    by simp_all
  then show "digits_of n = [] \<or>
      \<not> is_int_space (hd (digits_of n)) \<and> \<not> is_int_space (last (digits_of n))"
    using digits_of_range not_int_space_digit by blast
qed

lemma numeral_no_underscore: "filter (\<lambda>d. d \<noteq> 95) (digits_of n) = digits_of n"
proof -
  have "\<forall>c\<in>set (digits_of n). c \<noteq> 95"
    using digits_of_range by fastforce
  then show ?thesis by (simp add: filter_id_conv)
qed

lemma py_int_numeral:
  "py_int py (digits_of n) =
   (if too_many_digits py (length (digits_of n)) then None else Some (int n))"
proof -
  obtain c cs where c: "digits_of n = c # cs"
    by (cases "digits_of n") simp_all
  have "c \<in> set (digits_of n)" by (simp add: c)
  then have r: "48 \<le> c" "c \<le> 57" using digits_of_range by blast+
  have p: "parse_digits py 0 False (c # cs) = Some n"
    using parse_digits_numeral [of py 0 False n "[]"] by (simp add: c)
  have f: "filter (\<lambda>d. d \<noteq> 95) (c # cs) = c # cs"
    using numeral_no_underscore [of n] by (simp only: c)
  have s: "strip_chars is_int_space (c # cs) = c # cs"
    using strip_int_space_numeral [of n] by (simp only: c)
  have ns: "(c = 45) = False" "(c = 43) = False"
    using r by simp_all
  have "py_int py (c # cs) =
        (if too_many_digits py (length (c # cs)) then None else Some (int n))"
    unfolding py_int_def
    by (simp only: s list.case Let_def ns simp_thms if_False p option.case f)
  then show ?thesis by (simp only: c)
qed

lemma try_int_key_numeral:
  "\<not> too_many_digits py (length (digits_of n)) \<Longrightarrow> try_int_key py (digits_of n) = IntKey (int n)"
  "too_many_digits py (length (digits_of n)) \<Longrightarrow> try_int_key py (digits_of n) = StrKey (digits_of n)"
  by (simp_all add: try_int_key_def py_int_numeral)

lemma short_numeral_fits: "length s \<le> 640 \<Longrightarrow> \<not> too_many_digits py (length s)"
  by (simp add: too_many_digits_def)

lemma row_key_numeral:
  "length (digits_of n) \<le> 640 \<Longrightarrow> row_key py (digits_of n # cells) = IntKey (int n)"
  by (simp add: row_key_def try_int_key_numeral(1) short_numeral_fits)

lemma insort_int_key:
  "\<forall>y\<in>set (x # ys). k y = IntKey (int y) \<Longrightarrow> insort_key k x ys = insort x ys"
  by (induction ys) simp_all

lemma sort_int_key:
  "\<forall>y\<in>set xs. k y = IntKey (int y) \<Longrightarrow> sort_key k xs = sort xs"
proof (induction xs)
  case Nil
  then show ?case by simp
next
  case (Cons x xs)
  then have IH: "sort_key k xs = sort xs" by simp
  have "\<forall>y\<in>set (x # sort xs). k y = IntKey (int y)"
    using Cons.prems by simp
  then show ?case
    by (simp add: IH insort_int_key)
qed

lemma insort_key_map:
  "insort_key f (g x) (map g xs) = map g (insort_key (\<lambda>y. f (g y)) x xs)"
  by (induction xs) simp_all

lemma sort_key_map:
  "sort_key f (map g xs) = map g (sort_key (\<lambda>y. f (g y)) xs)"
  by (induction xs) (simp_all add: insort_key_map)

lemma order_of_numerals:
  assumes "\<forall>n\<in>set ns. length (digits_of n) \<le> 640"
  shows "order_for_display py (map (\<lambda>n. [digits_of n]) ns) =
         map (\<lambda>n. [digits_of n]) (sort ns)"
proof -
  have "\<forall>n\<in>set ns. row_key py [digits_of n] = IntKey (int n)"
    using assms by (simp add: row_key_numeral)
  then have "sort_key (\<lambda>n. row_key py [digits_of n]) ns = sort ns"
    by (rule sort_int_key)
  then show ?thesis
    by (simp add: order_for_display_def sort_key_map)
qed

lemma row_key_too_long:
  "too_many_digits py (length (digits_of n)) \<Longrightarrow>
   row_key py (digits_of n # cells) = StrKey (digits_of n)"
  by (simp add: row_key_def try_int_key_numeral(2))

lemma key_of_10: "row_key py [ustr ''10''] = IntKey 10"
  and key_of_2: "row_key py [ustr ''2''] = IntKey 2"
  and key_of_1: "row_key py [ustr ''1''] = IntKey 1"
  and key_of_abc: "row_key py [ustr ''abc''] = StrKey (ustr ''abc'')"
  and key_of_minus_3: "row_key py [ustr ''-3''] = IntKey (- 3)"
  and key_of_plus_3: "row_key py [ustr ''+3''] = IntKey 3"
  and key_of_1_0: "row_key py [ustr ''1_0''] = IntKey 10"
  and key_of_1__0: "row_key py [ustr ''1__0''] = StrKey (ustr ''1__0'')"
  and key_of_space_7: "row_key py [[SPACE, 55]] = IntKey 7"
  and key_of_us_5: "row_key py [[31, 53]] = StrKey [31, 53]"
  and key_of_empty: "row_key py [[]] = StrKey []"
  and key_of_no_cells: "row_key py [] = StrKey []"
  by (simp_all add: row_key_def try_int_key_def py_int_def ustr_def strip_chars_def
      is_int_space_def is_space_def digit_value_def too_many_digits_def)

lemma display_order_example:
  "order_for_display py [[ustr ''10''], [ustr ''2''], [ustr ''abc''], [ustr ''1'']] =
   [[ustr ''1''], [ustr ''2''], [ustr ''10''], [ustr ''abc'']]"
  by (simp add: order_for_display_def key_of_10 key_of_2 key_of_1 key_of_abc)

lemma display_order_separator:
  "order_for_display py [[[31, 53]], [ustr ''10'']] = [[ustr ''10''], [[31, 53]]]"
  by (simp add: order_for_display_def key_of_10 key_of_us_5)

lemma digits_of_length_lower: "10 ^ k \<le> n \<Longrightarrow> k < length (digits_of n)"
proof (induction k arbitrary: n)
  case 0
  then show ?case by (cases "digits_of n") simp_all
next
  case (Suc k)
  have p: "1 \<le> (10::nat) ^ k" by simp
  from Suc.prems have le: "10 * 10 ^ k \<le> n" by simp
  with p have ge: "\<not> n < 10" by linarith
  from le have "10 ^ k \<le> n div 10" by linarith
  then have "k < length (digits_of (n div 10))" by (rule Suc.IH)
  with ge show ?case by (simp add: digits_of.simps [of n])
qed

lemma too_many_default: "4300 < n \<Longrightarrow> too_many_digits default_interp n"
  by (simp add: too_many_digits_def default_interp_def)

text \<open>
  Claim C8. The display order is a permutation of the rows, sorted by the key of field 0,
  and rows with equal keys keep their order (stability). Every integer key is below every
  string key, integer keys compare by value and string keys as strings, so the result is
  the integer-keyed rows in display order followed by the others in display order. The
  key of a decimal numeral is its value, unless it has more digits than the interpreter
  converts, so rows whose identifiers are decimal numerals are shown in numerical order.
  Signs, single underscores and surrounding blanks are part of a number; a doubled
  underscore, the separator U+001F, letters and the empty identifier make a string key.
  On the identifiers 10, 2, abc, 1 the order is 1, 2, 10, abc.
\<close>

theorem C8_display_order:
  "mset (order_for_display py rows) = mset rows \<and>
   sorted (map (row_key py) (order_for_display py rows)) \<and>
   (\<forall>k. filter (\<lambda>r. row_key py r = k) (order_for_display py rows) =
        filter (\<lambda>r. row_key py r = k) rows) \<and>
   order_for_display py rows =
     order_for_display py (filter (\<lambda>r. is_int_key (row_key py r)) rows) @
     order_for_display py (filter (\<lambda>r. \<not> is_int_key (row_key py r)) rows) \<and>
   (\<forall>a b. (IntKey a \<le> IntKey b) = (a \<le> b)) \<and>
   (\<forall>a s. IntKey a < StrKey s) \<and>
   (\<forall>s t. (StrKey s \<le> StrKey t) = (s \<le> t)) \<and>
   (length (digits_of n) \<le> 640 \<longrightarrow> row_key py (digits_of n # cells) = IntKey (int n)) \<and>
   (too_many_digits py (length (digits_of m)) \<longrightarrow>
      row_key py (digits_of m # cells) = StrKey (digits_of m)) \<and>
   ((\<forall>i\<in>set ns. length (digits_of i) \<le> 640) \<longrightarrow>
      order_for_display py (map (\<lambda>i. [digits_of i]) ns) = map (\<lambda>i. [digits_of i]) (sort ns)) \<and>
   row_key py [ustr ''-3''] = IntKey (- 3) \<and>
   row_key py [ustr ''+3''] = IntKey 3 \<and>
   row_key py [ustr ''1_0''] = IntKey 10 \<and>
   row_key py [[SPACE, 55]] = IntKey 7 \<and>
   row_key py [ustr ''1__0''] = StrKey (ustr ''1__0'') \<and>
   row_key py [[31, 53]] = StrKey [31, 53] \<and>
   row_key py [ustr ''abc''] = StrKey (ustr ''abc'') \<and>
   row_key py [[]] = StrKey [] \<and>
   row_key py [] = StrKey [] \<and>
   order_for_display py [[[31, 53]], [ustr ''10'']] = [[ustr ''10''], [[31, 53]]] \<and>
   map hd (order_for_display py [[ustr ''10''], [ustr ''2''], [ustr ''abc''], [ustr ''1'']]) =
     [ustr ''1'', ustr ''2'', ustr ''10'', ustr ''abc'']"
proof -
  have 1: "mset (order_for_display py rows) = mset rows"
    by (simp add: order_for_display_def)
  have 2: "sorted (map (row_key py) (order_for_display py rows))"
    by (simp add: order_for_display_def)
  have 3: "\<forall>k. filter (\<lambda>r. row_key py r = k) (order_for_display py rows) =
        filter (\<lambda>r. row_key py r = k) rows"
    by (simp add: order_for_display_def sort_key_stable)
  have 5: "\<forall>a s. IntKey a < StrKey s"
    by (simp add: less_sort_key_def)
  have 6: "length (digits_of n) \<le> 640 \<longrightarrow> row_key py (digits_of n # cells) = IntKey (int n)"
    by (simp add: row_key_numeral)
  have 7: "too_many_digits py (length (digits_of m)) \<longrightarrow>
      row_key py (digits_of m # cells) = StrKey (digits_of m)"
    by (simp add: row_key_too_long)
  have 8: "(\<forall>i\<in>set ns. length (digits_of i) \<le> 640) \<longrightarrow>
      order_for_display py (map (\<lambda>i. [digits_of i]) ns) = map (\<lambda>i. [digits_of i]) (sort ns)"
    by (simp add: order_of_numerals)
  have 9: "map hd (order_for_display py [[ustr ''10''], [ustr ''2''], [ustr ''abc''], [ustr ''1'']]) =
     [ustr ''1'', ustr ''2'', ustr ''10'', ustr ''abc'']"
    by (simp add: display_order_example)
  show ?thesis
    by (intro conjI 1 2 3 5 6 7 8 9 order_for_display_split key_of_minus_3 key_of_plus_3
        key_of_1_0 key_of_space_7 key_of_1__0 key_of_us_5 key_of_abc key_of_empty
        key_of_no_cells display_order_separator) simp_all
qed

lemma digits_of_10: "digits_of 10 = [49, 48]" and digits_of_2: "digits_of 2 = [50]"
  and digits_of_1: "digits_of (Suc 0) = [49]"
  by (simp_all add: digits_of.simps)

theorem C8_display_order_witness:
  "row_key default_interp [digits_of 10] = IntKey 10 \<and>
   4300 < length (digits_of (10 ^ 4300)) \<and>
   row_key default_interp [digits_of (10 ^ 4300)] = StrKey (digits_of (10 ^ 4300)) \<and>
   order_for_display default_interp [[digits_of 10], [digits_of 2], [digits_of 1]] =
     [[digits_of 1], [digits_of 2], [digits_of 10]]"
proof -
  note t = C8_display_order [of default_interp "[]" 10 "[]" "10 ^ 4300" "[10, 2, 1]"]
  have len: "4300 < length (digits_of (10 ^ 4300))"
    by (rule digits_of_length_lower) (rule order_refl)
  then have big: "too_many_digits default_interp (length (digits_of (10 ^ 4300)))"
    by (rule too_many_default)
  have small: "length (digits_of 10) \<le> 640"
    by (simp add: digits_of_10)
  have all: "\<forall>i\<in>set [10, 2, 1]. length (digits_of i) \<le> 640"
    by (simp add: digits_of_10 digits_of_2 digits_of_1)
  have srt: "sort [10, 2, 1 :: nat] = [1, 2, 10]"
    by simp
  from t small have a: "row_key default_interp [digits_of 10] = IntKey (int 10)"
    by blast
  from t big have b: "row_key default_interp [digits_of (10 ^ 4300)] = StrKey (digits_of (10 ^ 4300))"
    by blast
  from t all have "order_for_display default_interp (map (\<lambda>i. [digits_of i]) [10, 2, 1]) =
      map (\<lambda>i. [digits_of i]) (sort [10, 2, 1])"
    by blast
  then have c: "order_for_display default_interp [[digits_of 10], [digits_of 2], [digits_of 1]] =
     [[digits_of 1], [digits_of 2], [digits_of 10]]"
    unfolding srt by simp
  from a have a': "row_key default_interp [digits_of 10] = IntKey 10" by simp
  show ?thesis
    by (intro conjI a' len b c)
qed

subsection \<open>Appending a record with a plain identifier\<close>

lemma plain_cell_sanitized:
  assumes "plain_cell ident" "DQUOTE \<notin> set ident"
  shows "sanitize_field (PyStr ident) = ident"
proof -
  from assms(1) have nb: "no_linebreak ident"
    by (simp add: plain_cell_def storable_cell_def)
  then have "LF \<notin> set ident" "CR \<notin> set ident"
    by (auto simp: no_linebreak_def)
  with assms(2) show ?thesis by (intro sanitize_field_fixed)
qed

lemma clean_fixed_nonblank:
  assumes "clean_cell c = c" "c \<noteq> []"
  shows "strip c \<noteq> []"
proof
  assume "strip c = []"
  then have "clean_cell c = []" by (simp add: clean_cell_def)
  with assms show False by simp
qed

lemma strip_prefix_nonblank:
  "strip a \<noteq> [] \<Longrightarrow> strip (a @ b) \<noteq> []"
  by (auto simp: strip_def strip_chars_Nil_iff)

lemma parse_line_first_cell:
  assumes "SEMI \<notin> set ident"
  shows "hd (parse_line (join [SEMI] (ident # cells))) = clean_cell ident"
proof (cases cells)
  case Nil
  with assms show ?thesis
    by (simp add: parse_line_def pad_row_def split_on_single)
next
  case (Cons c cs)
  have "split_on SEMI (join [SEMI] (ident # cells)) = ident # split_on SEMI (join [SEMI] cells)"
    using assms by (simp add: Cons split_on_cell)
  then show ?thesis by (simp add: parse_line_def pad_row_def)
qed

lemma plain_first_nonblank:
  assumes "plain_cell ident" "ident \<noteq> [] \<or> cells \<noteq> []"
  shows "strip (join [SEMI] (ident # cells)) \<noteq> []"
proof (cases cells)
  case Nil
  with assms show ?thesis
    by (simp add: clean_fixed_nonblank plain_cell_def)
next
  case (Cons c cs)
  have "SEMI \<in> set (join [SEMI] (ident # cells))"
    by (intro sep_in_join) (simp add: Cons)
  then show ?thesis
    by (intro strip_nonblank bexI [of _ SEMI]) simp_all
qed

lemma append_other_paths:
  "q \<noteq> path \<Longrightarrow> fst (append_row_utf16le p files path vals) q = files q"
  by (auto simp: append_row_utf16le_def ensure_file_and_header_def open_write_def open_append_def
      Let_def split: prod.splits if_splits)

lemma append_visible:
  assumes ft: "file_text files path = Some t"
    and brk: "is_linebreak (last t)"
    and two: "2 \<le> length (read_all_rows files path)"
    and vals: "vals = PyStr ident # rest"
    and ne: "ident \<noteq> [] \<or> rest \<noteq> []"
    and ident: "plain_cell ident" "DQUOTE \<notin> set ident"
    and rest: "\<forall>v\<in>set rest. encodable (sanitize_field v) \<and> no_linebreak (sanitize_field v)"
  shows "snd (append_row_utf16le p files path vals)"
    and "read_all_rows (fst (append_row_utf16le p files path vals)) path =
         read_all_rows files path @ [parse_line (join [SEMI] (map sanitize_field vals))]"
    and "hd (parse_line (join [SEMI] (map sanitize_field vals))) = ident"
    and "id_exists (fst (append_row_utf16le p files path vals)) path ident None"
    and "length (data_rows_preview (read_all_rows (fst (append_row_utf16le p files path vals)) path)) =
         length (data_rows_preview (read_all_rows files path)) + 1"
proof -
  let ?new = "parse_line (join [SEMI] (map sanitize_field vals))"
  have si: "sanitize_field (PyStr ident) = ident"
    using ident by (rule plain_cell_sanitized)
  have line: "join [SEMI] (map sanitize_field vals) = join [SEMI] (ident # map sanitize_field rest)"
    by (simp only: vals list.map si)
  have cells: "\<forall>v\<in>set vals. encodable (sanitize_field v) \<and> no_linebreak (sanitize_field v)"
    using rest ident(1) by (simp add: vals si plain_cell_def storable_cell_def del: sanitize_field.simps)
  have nonblank: "strip (join [SEMI] (map sanitize_field vals)) \<noteq> []"
    unfolding line using ident(1) ne by (intro plain_first_nonblank) simp_all
  have brk': "t = [] \<or> is_linebreak (last t)" using brk by simp
  note ae = append_existing [OF ft brk' cells nonblank, of p]
  show "snd (append_row_utf16le p files path vals)" by (rule ae(1))
  show rows: "read_all_rows (fst (append_row_utf16le p files path vals)) path =
         read_all_rows files path @ [?new]"
    by (rule ae(3))
  have "hd (parse_line (join [SEMI] (ident # map sanitize_field rest))) = clean_cell ident"
    using ident(1) by (intro parse_line_first_cell) (simp add: plain_cell_def storable_cell_def)
  then show hd: "hd ?new = ident"
    using ident(1) by (simp only: line plain_cell_def)
  have "15 \<le> length ?new" by (rule length_parse_line)
  then have m: "matches ident ?new"
    using hd by (cases ?new) (simp_all add: matches_def)
  have dr: "drop 2 (read_all_rows files path @ [?new]) = drop 2 (read_all_rows files path) @ [?new]"
    using two by simp
  show "id_exists (fst (append_row_utf16le p files path vals)) path ident None"
    using m by (simp only: id_exists_None rows dr) simp
  show "length (data_rows_preview (read_all_rows (fst (append_row_utf16le p files path vals)) path)) =
         length (data_rows_preview (read_all_rows files path)) + 1"
    using two by (simp only: data_rows_preview_drop rows dr) simp
qed

text \<open>
  Claim C1, as amended. The file exists, decodes, ends with a line break and already
  holds two rows or more. The record starts with a string identifier that can be encoded,
  holds no delimiter, no line break and no double quote, and is left as it is by the
  stripping on load; the record is not the single empty field; its other fields, once
  sanitized, can be encoded and hold no line break. Then the append succeeds and touches
  no other file, \<open>id_exists\<close> finds the identifier, and the rows of the file are the old
  rows followed by one new row whose field 0 is the identifier, so there is exactly one
  more data row (the rows after the first two).
\<close>

theorem C1_append_then_exists:
  assumes "file_text files path = Some t"
    and "is_linebreak (last t)"
    and "2 \<le> length (read_all_rows files path)"
    and "vals = PyStr ident # rest"
    and "ident \<noteq> [] \<or> rest \<noteq> []"
    and "plain_cell ident" and "DQUOTE \<notin> set ident"
    and "\<forall>v\<in>set rest. encodable (sanitize_field v) \<and> no_linebreak (sanitize_field v)"
  shows "snd (append_row_utf16le p files path vals) \<and>
         id_exists (fst (append_row_utf16le p files path vals)) path ident None \<and>
         length (data_rows_preview (read_all_rows (fst (append_row_utf16le p files path vals)) path)) =
           length (data_rows_preview (read_all_rows files path)) + 1 \<and>
         read_all_rows (fst (append_row_utf16le p files path vals)) path =
           read_all_rows files path @ [parse_line (join [SEMI] (map sanitize_field vals))] \<and>
         hd (parse_line (join [SEMI] (map sanitize_field vals))) = ident \<and>
         (\<forall>q. q = path \<or> fst (append_row_utf16le p files path vals) q = files q)"
proof -
  note av = append_visible [OF assms]
  have other: "\<forall>q. q = path \<or> fst (append_row_utf16le p files path vals) q = files q"
    using append_other_paths [of _ path p files vals] by blast
  show ?thesis
    by (intro conjI av other)
qed

lemma fresh_store_text:
  "file_text fresh_store ''x.csv'' = Some (65279 # version_line @ header_line)"
  "is_linebreak (last (65279 # version_line @ header_line))"
  "read_all_rows fresh_store ''x.csv'' = [version_cells, COLUMNS]"
  by (simp_all add: fresh_store_def create_new_file_result(2) create_new_file_rows)
     (simp add: header_line_def CRLF_def)

lemma sample_record_split: "sample_record = PyStr (ustr ''1'') # tl sample_record"
  by (simp add: sample_record_def)

lemma plain_cell_1: "plain_cell (ustr ''1'')"
  by (simp add: plain_cell_def storable_cell_def clean_cell_def strip_def strip_chars_def
      is_space_def ustr_def is_linebreak_def encodable_def)

lemma sample_record_rest:
  "\<forall>v\<in>set (tl sample_record). encodable (sanitize_field v) \<and> no_linebreak (sanitize_field v)"
  using sample_record_cells by (simp add: sample_record_def)

theorem C1_append_then_exists_witness:
  "snd (append_row_utf16le Posix fresh_store ''x.csv'' sample_record) \<and>
   id_exists (fst (append_row_utf16le Posix fresh_store ''x.csv'' sample_record)) ''x.csv''
     (ustr ''1'') None \<and>
   data_rows_preview (read_all_rows fresh_store ''x.csv'') = [] \<and>
   length (data_rows_preview
     (read_all_rows (fst (append_row_utf16le Posix fresh_store ''x.csv'' sample_record)) ''x.csv'')) = 1 \<and>
   read_all_rows (fst (append_row_utf16le Posix fresh_store ''x.csv'' sample_record)) ''x.csv'' =
     [version_cells, COLUMNS, sample_row]"
proof -
  have two: "2 \<le> length (read_all_rows fresh_store ''x.csv'')"
    by (simp add: fresh_store_text(3))
  have ne: "ustr ''1'' \<noteq> [] \<or> tl sample_record \<noteq> []"
    by (simp add: ustr_def)
  have dq: "DQUOTE \<notin> set (ustr ''1'')"
    by (simp add: ustr_def)
  note t = C1_append_then_exists [OF fresh_store_text(1,2) two sample_record_split ne
      plain_cell_1 dq sample_record_rest, of Posix]
  have row: "parse_line (join [SEMI] (map sanitize_field sample_record)) = sample_row"
    by (simp only: sample_record_line sample_row_parse)
  show ?thesis
    using t by (simp add: row fresh_store_text(3) data_rows_preview_def)
qed

lemma matches_hd: "r \<noteq> [] \<Longrightarrow> matches ident r \<longleftrightarrow> hd r = ident"
  by (cases r) (simp_all add: matches_def)

lemma parse_line_nonempty [simp]: "parse_line l \<noteq> []"
  using length_parse_line [of l] by (cases "parse_line l") simp_all

lemma ensured_store_text:
  "file_text ensured_store ''x.csv'' = Some (translate_newlines Posix header_line)"
  "translate_newlines Posix header_line = [] \<or>
   is_linebreak (last (translate_newlines Posix header_line))"
  "read_all_rows ensured_store ''x.csv'' = [COLUMNS]"
proof -
  have miss: "(Map.empty :: fs) ''x.csv'' = None" by simp
  show "file_text ensured_store ''x.csv'' = Some (translate_newlines Posix header_line)"
    using ensure_missing(2) [of Map.empty "''x.csv''" Posix] by (simp add: ensured_store_def)
  show "translate_newlines Posix header_line = [] \<or>
   is_linebreak (last (translate_newlines Posix header_line))"
    using translated_line_last [OF header_no_linebreak, of Posix] by (simp add: header_line_def)
  show "read_all_rows ensured_store ''x.csv'' = [COLUMNS]"
    using ensure_missing_rows [of Map.empty "''x.csv''" Posix] by (simp add: ensured_store_def)
qed

lemma ensured_store_append:
  "snd (append_row_utf16le Posix ensured_store ''x.csv'' sample_record)"
  "read_all_rows (fst (append_row_utf16le Posix ensured_store ''x.csv'' sample_record)) ''x.csv'' =
     [COLUMNS, sample_row]"
proof -
  note ae = append_existing [OF ensured_store_text(1,2) sample_record_cells
      two_fields_nonblank [OF sample_record_length], of Posix]
  show "snd (append_row_utf16le Posix ensured_store ''x.csv'' sample_record)"
    by (rule ae(1))
  show "read_all_rows (fst (append_row_utf16le Posix ensured_store ''x.csv'' sample_record)) ''x.csv'' =
     [COLUMNS, sample_row]"
    using ae(3) by (simp only: ensured_store_text(3) sample_record_line sample_row_parse) simp
qed

lemma quoted_record_length: "2 \<le> length quoted_record"
  by (simp add: quoted_record_def)

lemma fresh_store_append_quoted:
  "snd (append_row_utf16le Posix fresh_store ''x.csv'' quoted_record)"
  "read_all_rows (fst (append_row_utf16le Posix fresh_store ''x.csv'' quoted_record)) ''x.csv'' =
     [version_cells, COLUMNS, parse_line (join [SEMI] (map sanitize_field quoted_record))]"
proof -
  have brk: "65279 # version_line @ header_line = [] \<or>
             is_linebreak (last (65279 # version_line @ header_line))"
    using fresh_store_text(2) by simp
  note ae = append_existing [OF fresh_store_text(1) brk quoted_record_cells
      two_fields_nonblank [OF quoted_record_length], of Posix]
  show "snd (append_row_utf16le Posix fresh_store ''x.csv'' quoted_record)"
    by (rule ae(1))
  show "read_all_rows (fst (append_row_utf16le Posix fresh_store ''x.csv'' quoted_record)) ''x.csv'' =
     [version_cells, COLUMNS, parse_line (join [SEMI] (map sanitize_field quoted_record))]"
    using ae(3) by (simp only: fresh_store_text(3)) simp
qed

text \<open>
  The claim as stated fails twice. On the header-only file that \<open>ensure_file_and_header\<close>
  makes, the identifier 1 is absent, the sample record is appended, and \<open>id_exists\<close> still
  does not find it: the record is the second row and the readers skip two. On a freshly
  created file the identifier \<open>'a'\<close>, written between apostrophes, is absent, the record
  is appended, and \<open>id_exists\<close> does not find \<open>'a'\<close>: the file gives the identifier back
  as \<open>a\<close>.
\<close>

theorem C1_append_counterexample:
  "read_all_rows ensured_store ''x.csv'' = [COLUMNS] \<and>
   \<not> id_exists ensured_store ''x.csv'' (ustr ''1'') None \<and>
   snd (append_row_utf16le Posix ensured_store ''x.csv'' sample_record) \<and>
   \<not> id_exists (fst (append_row_utf16le Posix ensured_store ''x.csv'' sample_record)) ''x.csv''
       (ustr ''1'') None \<and>
   data_rows_preview
     (read_all_rows (fst (append_row_utf16le Posix ensured_store ''x.csv'' sample_record)) ''x.csv'') = [] \<and>
   \<not> id_exists fresh_store ''x.csv'' [SQUOTE, 97, SQUOTE] None \<and>
   snd (append_row_utf16le Posix fresh_store ''x.csv'' quoted_record) \<and>
   \<not> id_exists (fst (append_row_utf16le Posix fresh_store ''x.csv'' quoted_record)) ''x.csv''
       [SQUOTE, 97, SQUOTE] None \<and>
   id_exists (fst (append_row_utf16le Posix fresh_store ''x.csv'' quoted_record)) ''x.csv'' [97] None"
proof -
  have a1: "\<not> id_exists ensured_store ''x.csv'' (ustr ''1'') None"
    by (simp add: id_exists_None ensured_store_text(3))
  have a2: "\<not> id_exists (fst (append_row_utf16le Posix ensured_store ''x.csv'' sample_record)) ''x.csv''
       (ustr ''1'') None"
    by (simp add: id_exists_None ensured_store_append(2))
  have a3: "data_rows_preview
     (read_all_rows (fst (append_row_utf16le Posix ensured_store ''x.csv'' sample_record)) ''x.csv'') = []"
    by (simp add: data_rows_preview_def ensured_store_append(2))
  have b1: "\<not> id_exists fresh_store ''x.csv'' [SQUOTE, 97, SQUOTE] None"
    by (simp add: id_exists_None fresh_store_text(3))
  have b2: "\<not> id_exists (fst (append_row_utf16le Posix fresh_store ''x.csv'' quoted_record)) ''x.csv''
       [SQUOTE, 97, SQUOTE] None"
    by (simp add: id_exists_None fresh_store_append_quoted(2) matches_hd quoted_record_parse)
  have b3: "id_exists (fst (append_row_utf16le Posix fresh_store ''x.csv'' quoted_record)) ''x.csv'' [97] None"
    by (simp add: id_exists_None fresh_store_append_quoted(2) matches_hd quoted_record_parse)
  show ?thesis
    by (intro conjI ensured_store_text(3) a1 ensured_store_append(1) a2 a3 b1
        fresh_store_append_quoted(1) b2 b3)
qed

subsection \<open>Removing and replacing the first match\<close>

lemma delete_loop_removed: "delete_loop ident True rows = (rows, True)"
  by (induction rows) simp_all

lemma remove_first_Cons:
  "remove_first ident (r # rows) = (if matches ident r then rows else r # remove_first ident rows)"
  by (simp add: remove_first_def)

lemma delete_loop_spec:
  "delete_loop ident False rows =
   (if \<exists>r\<in>set rows. matches ident r then (remove_first ident rows, True) else (rows, False))"
proof (induction rows)
  case Nil
  then show ?case by simp
next
  case (Cons r rows)
  show ?case
  proof (cases "matches ident r")
    case True
    then show ?thesis
      by (simp add: delete_loop_removed remove_first_Cons) (simp add: matches_def)
  next
    case False
    then have "\<not> (length r > 0 \<and> r ! 0 = ident)" by (simp add: matches_def)
    with False Cons.IH show ?thesis
      by (auto simp: remove_first_Cons)
  qed
qed

lemma remove_first_Nil [simp]: "remove_first ident [] = []"
  by (simp add: remove_first_def)

lemma delete_new_lines_spec:
  "delete_new_lines ident rows =
   (if \<exists>r\<in>set (data_rows_edit rows). matches ident r
    then (header_rows_edit rows @ remove_first ident (data_rows_edit rows), True)
    else (header_rows_edit rows @ data_rows_edit rows, False))"
  by (simp add: delete_new_lines_def delete_loop_spec)

lemma length_remove_first:
  "\<exists>r\<in>set rows. matches ident r \<Longrightarrow> length (remove_first ident rows) + 1 = length rows"
  by (induction rows) (auto simp: remove_first_Cons)

lemma set_remove_first: "set (remove_first ident rows) \<subseteq> set rows"
  by (induction rows) (auto simp: remove_first_Cons)

lemma filter_remove_first:
  "filter (matches ident) (remove_first ident rows) = tl (filter (matches ident) rows)"
  by (induction rows) (auto simp: remove_first_Cons)

lemma edit_split: "header_rows_edit rows @ data_rows_edit rows = rows"
  by (simp add: header_rows_edit_def data_rows_edit_def)

lemma length_header_rows_edit:
  "length (header_rows_edit rows) = (if 2 < length rows then 2 else 0)"
  by (simp add: header_rows_edit_def)

lemma set_edit_split:
  "set (header_rows_edit rows) \<subseteq> set rows" "set (data_rows_edit rows) \<subseteq> set rows"
  by (auto simp: header_rows_edit_def data_rows_edit_def dest: in_set_takeD in_set_dropD)

subsection \<open>Rows that were read are written back as they are\<close>

lemma rewrite_read_rows:
  assumes "set new_lines \<subseteq> set (read_all_rows files path)"
  shows "snd (write_rows p files path new_lines)"
    and "read_all_rows (fst (write_rows p files path new_lines)) path =
         map (map clean_cell) new_lines"
    and "file_text (fst (write_rows p files path new_lines)) path =
         Some (concat (map (translate_newlines p) (map row_line new_lines)))"
    and "\<And>q. q \<noteq> path \<Longrightarrow> fst (write_rows p files path new_lines) q = files q"
proof -
  have st: "\<forall>r\<in>set new_lines. \<forall>c\<in>set r. storable_cell c"
    using assms read_rows_storable by blast
  have "pad_row r = r" if "r \<in> set new_lines" for r
  proof -
    from that assms have "r \<in> set (read_all_rows files path)" by blast
    then have "15 \<le> length r" by (rule read_rows_length)
    then show ?thesis by (rule pad_row_id)
  qed
  then have eq: "map (\<lambda>r. map clean_cell (pad_row r)) new_lines = map (map clean_cell) new_lines"
    by simp
  show "snd (write_rows p files path new_lines)"
    using st by (rule write_rows_read(1))
  show "read_all_rows (fst (write_rows p files path new_lines)) path =
         map (map clean_cell) new_lines"
    using write_rows_read(2) [OF st, of p files path] by (simp only: eq)
  show "file_text (fst (write_rows p files path new_lines)) path =
         Some (concat (map (translate_newlines p) (map row_line new_lines)))"
    using st by (rule write_rows_read(3))
  show "\<And>q. q \<noteq> path \<Longrightarrow> fst (write_rows p files path new_lines) q = files q"
    using write_rows_read(4) [OF st] by blast
qed

lemma normal_rows_fixed: "normal_rows rows \<Longrightarrow> map (map clean_cell) rows = rows"
  by (simp add: normal_rows_def map_idI)

lemma normal_rows_subset: "normal_rows rows \<Longrightarrow> set xs \<subseteq> set rows \<Longrightarrow> normal_rows xs"
  by (auto simp: normal_rows_def)

subsection \<open>\<open>delete_selected\<close>\<close>

lemma delete_not_found:
  assumes "\<not> (\<exists>r\<in>set (data_rows_edit (read_all_rows files path)). matches ident r)"
  shows "delete_selected p files path ident = (NotFound, files)"
  using assms by (simp add: delete_selected_def delete_new_lines_spec)

lemma delete_found:
  assumes m: "\<exists>r\<in>set (data_rows_edit (read_all_rows files path)). matches ident r"
  shows "fst (delete_selected p files path ident) = Done"
    and "read_all_rows (snd (delete_selected p files path ident)) path =
         map (map clean_cell)
           (header_rows_edit (read_all_rows files path) @
            remove_first ident (data_rows_edit (read_all_rows files path)))"
    and "length (read_all_rows (snd (delete_selected p files path ident)) path) + 1 =
         length (read_all_rows files path)"
    and "\<And>q. q \<noteq> path \<Longrightarrow> snd (delete_selected p files path ident) q = files q"
    and "file_text (snd (delete_selected p files path ident)) path =
         Some (concat (map (translate_newlines p) (map row_line
           (header_rows_edit (read_all_rows files path) @
            remove_first ident (data_rows_edit (read_all_rows files path))))))"
proof -
  let ?rows = "read_all_rows files path"
  let ?new = "header_rows_edit ?rows @ remove_first ident (data_rows_edit ?rows)"
  have sub: "set ?new \<subseteq> set ?rows"
    using set_edit_split [of ?rows] set_remove_first [of ident "data_rows_edit ?rows"] by auto
  note rw = rewrite_read_rows [OF sub, where p = p]
  obtain files' where w: "write_rows p files path ?new = (files', True)"
    using rw(1) by (cases "write_rows p files path ?new") simp
  have d: "delete_selected p files path ident = (Done, files')"
    using m by (simp add: delete_selected_def delete_new_lines_spec w)
  have f: "files' = fst (write_rows p files path ?new)" by (simp add: w)
  show "fst (delete_selected p files path ident) = Done" by (simp add: d)
  show r: "read_all_rows (snd (delete_selected p files path ident)) path = map (map clean_cell) ?new"
    using rw(2) by (simp add: d f)
  have "length ?new + 1 = length (header_rows_edit ?rows @ data_rows_edit ?rows)"
    using length_remove_first [OF m] by simp
  then show "length (read_all_rows (snd (delete_selected p files path ident)) path) + 1 =
         length ?rows"
    by (simp only: r length_map edit_split)
  show "\<And>q. q \<noteq> path \<Longrightarrow> snd (delete_selected p files path ident) q = files q"
    using rw(4) by (simp add: d f)
  show "file_text (snd (delete_selected p files path ident)) path =
         Some (concat (map (translate_newlines p) (map row_line ?new)))"
    using rw(3) by (simp add: d f)
qed

lemma edit_split_long:
  "length h = 2 \<Longrightarrow> xs \<noteq> [] \<Longrightarrow>
   header_rows_edit (h @ xs) = h \<and> data_rows_edit (h @ xs) = xs"
  by (cases xs) (simp_all add: header_rows_edit_def data_rows_edit_def)

lemma edit_split_short:
  "length xs \<le> 2 \<Longrightarrow> header_rows_edit xs = [] \<and> data_rows_edit xs = xs"
  by (simp add: header_rows_edit_def data_rows_edit_def)

lemma edit_split_after_removal:
  assumes m: "\<exists>r\<in>set (data_rows_edit rows). matches ident r"
    and n: "length rows \<noteq> 3"
  shows "header_rows_edit (header_rows_edit rows @ remove_first ident (data_rows_edit rows)) =
         header_rows_edit rows"
    and "data_rows_edit (header_rows_edit rows @ remove_first ident (data_rows_edit rows)) =
         remove_first ident (data_rows_edit rows)"
proof -
  let ?rf = "remove_first ident (data_rows_edit rows)"
  have l: "length ?rf + 1 = length (data_rows_edit rows)"
    using m by (rule length_remove_first)
  have "header_rows_edit (header_rows_edit rows @ ?rf) = header_rows_edit rows \<and>
        data_rows_edit (header_rows_edit rows @ ?rf) = ?rf"
  proof (cases "2 < length rows")
    case True
    with n l have "?rf \<noteq> []" by (auto simp: data_rows_edit_def)
    moreover from True have "length (header_rows_edit rows) = 2"
      by (simp add: header_rows_edit_def)
    ultimately show ?thesis by (intro edit_split_long)
  next
    case False
    with l have "length ?rf \<le> 2" by (simp add: data_rows_edit_def)
    then have "header_rows_edit ?rf = [] \<and> data_rows_edit ?rf = ?rf"
      by (rule edit_split_short)
    moreover from False have "header_rows_edit rows = []"
      by (simp add: header_rows_edit_def)
    ultimately show ?thesis by simp
  qed
  then show "header_rows_edit (header_rows_edit rows @ ?rf) = header_rows_edit rows"
    and "data_rows_edit (header_rows_edit rows @ ?rf) = ?rf"
    by simp_all
qed

lemma length_edit_split_map:
  "length (data_rows_edit (map f rows)) = length (data_rows_edit rows)"
  "length (data_rows_preview (map f rows)) = length (data_rows_preview rows)"
  by (simp_all add: data_rows_edit_def data_rows_preview_def)

lemma delete_found_counts:
  assumes m: "\<exists>r\<in>set (data_rows_edit (read_all_rows files path)). matches ident r"
  shows "length (read_all_rows files path) \<noteq> 3 \<Longrightarrow>
         length (data_rows_edit (read_all_rows (snd (delete_selected p files path ident)) path)) + 1 =
         length (data_rows_edit (read_all_rows files path))"
    and "2 < length (read_all_rows files path) \<Longrightarrow>
         length (data_rows_preview (read_all_rows (snd (delete_selected p files path ident)) path)) + 1 =
         length (data_rows_preview (read_all_rows files path))"
proof -
  let ?rows = "read_all_rows files path"
  let ?rf = "remove_first ident (data_rows_edit ?rows)"
  note df = delete_found [OF m, where p = p]
  have l: "length ?rf + 1 = length (data_rows_edit ?rows)"
    using m by (rule length_remove_first)
  show "length (data_rows_edit (read_all_rows (snd (delete_selected p files path ident)) path)) + 1 =
         length (data_rows_edit ?rows)" if "length ?rows \<noteq> 3"
    using edit_split_after_removal(2) [OF m that] l
    by (simp only: df(2) length_edit_split_map)
  show "length (data_rows_preview (read_all_rows (snd (delete_selected p files path ident)) path)) + 1 =
         length (data_rows_preview ?rows)" if "2 < length ?rows"
    using df(3) that by (simp only: data_rows_preview_drop length_drop)
qed

lemma delete_found_normal:
  assumes m: "\<exists>r\<in>set (data_rows_edit (read_all_rows files path)). matches ident r"
    and nr: "normal_rows (read_all_rows files path)"
  shows "read_all_rows (snd (delete_selected p files path ident)) path =
         header_rows_edit (read_all_rows files path) @
         remove_first ident (data_rows_edit (read_all_rows files path))"
    and "length (read_all_rows files path) \<noteq> 3 \<Longrightarrow>
         header_rows_edit (read_all_rows (snd (delete_selected p files path ident)) path) =
         header_rows_edit (read_all_rows files path)"
    and "length (read_all_rows files path) \<noteq> 3 \<Longrightarrow>
         data_rows_edit (read_all_rows (snd (delete_selected p files path ident)) path) =
         remove_first ident (data_rows_edit (read_all_rows files path))"
    and "length (read_all_rows files path) \<noteq> 3 \<Longrightarrow>
         length (filter (matches ident) (data_rows_edit (read_all_rows files path))) = 1 \<Longrightarrow>
         \<not> (\<exists>r\<in>set (data_rows_edit (read_all_rows (snd (delete_selected p files path ident)) path)).
              matches ident r)"
proof -
  let ?rows = "read_all_rows files path"
  let ?new = "header_rows_edit ?rows @ remove_first ident (data_rows_edit ?rows)"
  have sub: "set ?new \<subseteq> set ?rows"
    using set_edit_split [of ?rows] set_remove_first [of ident "data_rows_edit ?rows"] by auto
  have "normal_rows ?new" using nr sub by (rule normal_rows_subset)
  then have fx: "map (map clean_cell) ?new = ?new" by (rule normal_rows_fixed)
  show r: "read_all_rows (snd (delete_selected p files path ident)) path = ?new"
    using delete_found(2) [OF m, where p = p] by (simp only: fx)
  show "header_rows_edit (read_all_rows (snd (delete_selected p files path ident)) path) =
         header_rows_edit ?rows" if "length ?rows \<noteq> 3"
    using edit_split_after_removal(1) [OF m that] by (simp only: r)
  show d: "data_rows_edit (read_all_rows (snd (delete_selected p files path ident)) path) =
         remove_first ident (data_rows_edit ?rows)" if "length ?rows \<noteq> 3"
    using edit_split_after_removal(2) [OF m that] by (simp only: r)
  show "\<not> (\<exists>r\<in>set (data_rows_edit (read_all_rows (snd (delete_selected p files path ident)) path)).
              matches ident r)"
    if n: "length ?rows \<noteq> 3"
      and u: "length (filter (matches ident) (data_rows_edit ?rows)) = 1"
  proof -
    from u have "tl (filter (matches ident) (data_rows_edit ?rows)) = []"
      by (cases "filter (matches ident) (data_rows_edit ?rows)") simp_all
    then have "filter (matches ident) (remove_first ident (data_rows_edit ?rows)) = []"
      by (simp only: filter_remove_first)
    then show ?thesis
      by (simp only: d [OF n] filter_empty_conv) blast
  qed
qed

subsection \<open>Stores given by their lines\<close>

lemma encodable_concat_lines:
  "\<forall>l\<in>set ls. encodable l \<Longrightarrow> encodable (concat (map (\<lambda>l. l @ CRLF) ls))"
  by (induction ls) simp_all

lemma read_store_of_lines:
  assumes "\<forall>l\<in>set ls. encodable l \<and> no_linebreak l"
  shows "file_text (store_of_lines path ls) path = Some (concat (map (\<lambda>l. l @ CRLF) ls))"
    and "read_all_rows (store_of_lines path ls) path = rows_of_lines ls"
proof -
  have "encodable (concat (map (\<lambda>l. l @ CRLF) ls))"
    using assms by (intro encodable_concat_lines) simp
  then obtain bs where bs: "utf16le_encode (concat (map (\<lambda>l. l @ CRLF) ls)) = Some bs"
    using encode_Some_iff by blast
  show ft: "file_text (store_of_lines path ls) path = Some (concat (map (\<lambda>l. l @ CRLF) ls))"
    using encode_decode [OF bs] by (simp add: store_of_lines_def bs file_text_def)
  have nb: "\<forall>l\<in>set ls. no_linebreak l" using assms by simp
  have "translate_newlines Posix (l @ CRLF) = l @ CRLF" if "l \<in> set ls" for l
    using translate_line [of l Posix] nb that by (simp add: CRLF_def)
  then have tr: "map (\<lambda>l. translate_newlines Posix (l @ CRLF)) ls = map (\<lambda>l. l @ CRLF) ls"
    by simp
  have "filter (\<lambda>l. strip l \<noteq> []) (splitlines (concat (map (\<lambda>l. l @ CRLF) ls))) =
        filter (\<lambda>l. strip l \<noteq> []) ls"
    using nonblank_lines_written [OF nb, of Posix] by (simp only: tr)
  then show "read_all_rows (store_of_lines path ls) path = rows_of_lines ls"
    using read_all_rows_text [OF ft] by (simp add: rows_of_lines_def)
qed

lemma rows_of_lines_Cons:
  "strip l \<noteq> [] \<Longrightarrow> rows_of_lines (l # ls) = parse_line l # rows_of_lines ls"
  by (simp add: rows_of_lines_def)

lemma rows_of_lines_Nil [simp]: "rows_of_lines [] = []"
  by (simp add: rows_of_lines_def)

lemma plain_version_facts:
  "encodable plain_version_line" "no_linebreak plain_version_line"
  "strip plain_version_line \<noteq> []" "parse_line plain_version_line = plain_version_cells"
proof -
  show "encodable plain_version_line"
    by (simp add: plain_version_line_def encodable_def) (simp add: ustr_def)
  show "no_linebreak plain_version_line"
    by (simp add: plain_version_line_def ustr_def replicate_14 is_linebreak_def)
  show "strip plain_version_line \<noteq> []"
    by (intro strip_nonblank bexI [of _ SEMI]) (simp_all add: plain_version_line_def replicate_14)
  show "parse_line plain_version_line = plain_version_cells"
    by (simp add: parse_line_def plain_version_line_def plain_version_cells_def ustr_def
        pad_row_def replicate_14 clean_cell_def strip_def strip_chars_def is_space_def)
qed

lemma header_facts:
  "encodable (join [SEMI] COLUMNS)" "no_linebreak (join [SEMI] COLUMNS)"
  "strip (join [SEMI] COLUMNS) \<noteq> []" "parse_line (join [SEMI] COLUMNS) = COLUMNS"
  using COLUMNS_encodable header_no_linebreak header_nonblank parse_header
  by (simp_all add: encodable_join)

lemma sample_row_facts:
  "encodable (join [SEMI] sample_row)" "no_linebreak (join [SEMI] sample_row)"
  "strip (join [SEMI] sample_row) \<noteq> []" "parse_line (join [SEMI] sample_row) = sample_row"
proof -
  have c: "\<forall>v\<in>set sample_record. encodable (sanitize_field v) \<and> no_linebreak (sanitize_field v)"
    by (rule sample_record_cells)
  have nbk: "strip (join [SEMI] (map sanitize_field sample_record)) \<noteq> []"
    using sample_record_length by (rule two_fields_nonblank)
  note sl = sanitized_line [OF c nbk]
  show "encodable (join [SEMI] sample_row)"
    using sl(1) by (simp add: sample_record_line)
  show "no_linebreak (join [SEMI] sample_row)"
    using sl(2) by (simp only: sample_record_line)
  show "strip (join [SEMI] sample_row) \<noteq> []"
    using nbk unfolding sample_record_line .
  show "parse_line (join [SEMI] sample_row) = sample_row"
    by (rule sample_row_parse)
qed

lemma second_line_facts:
  "encodable (ustr ''2;Analog'')" "no_linebreak (ustr ''2;Analog'')"
  "strip (ustr ''2;Analog'') \<noteq> []" "parse_line (ustr ''2;Analog'') = second_row"
  by (simp_all add: second_row_def parse_line_def pad_row_def clean_cell_def strip_def
      strip_chars_def is_space_def is_linebreak_def ustr_def encodable_def)

lemma two_record_store_rows:
  "read_all_rows two_record_store ''x.csv'' =
   [plain_version_cells, COLUMNS, sample_row, second_row]"
proof -
  have "\<forall>l\<in>set [plain_version_line, join [SEMI] COLUMNS, join [SEMI] sample_row, ustr ''2;Analog''].
          encodable l \<and> no_linebreak l"
    by (simp add: plain_version_facts header_facts sample_row_facts second_line_facts)
  then show ?thesis
    unfolding two_record_store_def
    by (simp only: read_store_of_lines(2) rows_of_lines_Cons rows_of_lines_Nil
        plain_version_facts header_facts sample_row_facts second_line_facts not_False_eq_True)
qed

lemma quoted_id_line_facts:
  "encodable (ustr ''1;Digital'')" "no_linebreak (ustr ''1;Digital'')"
  "strip (ustr ''1;Digital'') \<noteq> []"
  "parse_line (ustr ''1;Digital'') = [ustr ''1'', ustr ''Digital''] @ replicate 13 []"
  "encodable quoted_id_line"
  "no_linebreak quoted_id_line"
  "strip quoted_id_line \<noteq> []"
  "parse_line quoted_id_line =
     [[DQUOTE, 49, DQUOTE], ustr ''Analog''] @ replicate 13 []"
proof -
  show "encodable (ustr ''1;Digital'')" by simp
  show "encodable quoted_id_line"
    by (simp add: quoted_id_line_def encodable_Cons)
  show "no_linebreak (ustr ''1;Digital'')"
    "no_linebreak quoted_id_line"
    by (simp_all add: quoted_id_line_def ustr_def is_linebreak_def)
  show "strip (ustr ''1;Digital'') \<noteq> []"
    "strip quoted_id_line \<noteq> []"
    by (simp_all add: quoted_id_line_def ustr_def strip_def strip_chars_def is_space_def)
  show "parse_line (ustr ''1;Digital'') = [ustr ''1'', ustr ''Digital''] @ replicate 13 []"
    "parse_line quoted_id_line =
     [[DQUOTE, 49, DQUOTE], ustr ''Analog''] @ replicate 13 []"
    by (simp_all add: quoted_id_line_def parse_line_def pad_row_def clean_cell_def strip_def
        strip_chars_def is_space_def ustr_def)
qed

lemma quoted_id_store_rows:
  "read_all_rows quoted_id_store ''x.csv'' =
   [plain_version_cells, COLUMNS, [ustr ''1'', ustr ''Digital''] @ replicate 13 [],
    [[DQUOTE, 49, DQUOTE], ustr ''Analog''] @ replicate 13 []]"
proof -
  have "\<forall>l\<in>set [plain_version_line, join [SEMI] COLUMNS, ustr ''1;Digital'',
                  quoted_id_line].
          encodable l \<and> no_linebreak l"
    by (simp add: plain_version_facts header_facts quoted_id_line_facts)
  then show ?thesis
    unfolding quoted_id_store_def
    by (simp only: read_store_of_lines(2) rows_of_lines_Cons rows_of_lines_Nil
        plain_version_facts header_facts quoted_id_line_facts not_False_eq_True)
qed

lemma one_record_store_rows:
  "read_all_rows one_record_store ''x.csv'' = [version_cells, COLUMNS, sample_row]"
proof -
  have brk: "65279 # version_line @ header_line = [] \<or>
             is_linebreak (last (65279 # version_line @ header_line))"
    using fresh_store_text(2) by simp
  note ae = append_existing [OF fresh_store_text(1) brk sample_record_cells
      two_fields_nonblank [OF sample_record_length], of Posix]
  show ?thesis
    unfolding one_record_store_def
    using ae(3) by (simp only: fresh_store_text(3) sample_record_line sample_row_parse) simp
qed

lemma clean_cells_concrete:
  "map clean_cell plain_version_cells = plain_version_cells"
  "map clean_cell version_cells = version_cells"
  "map clean_cell sample_row = sample_row"
  "map clean_cell second_row = second_row"
  by (simp_all add: plain_version_cells_def version_cells_def sample_row_def second_row_def
      ustr_def clean_cell_def strip_def strip_chars_def is_space_def)

lemma normal_rows_Cons:
  "normal_rows (r # rows) \<longleftrightarrow> map clean_cell r = r \<and> normal_rows rows"
  by (auto simp: normal_rows_def map_idI dest: map_eq_conv [THEN iffD1, of clean_cell r id, simplified])

lemma normal_rows_Nil [simp]: "normal_rows []"
  by (simp add: normal_rows_def)

lemma two_record_store_normal: "normal_rows (read_all_rows two_record_store ''x.csv'')"
  by (simp add: two_record_store_rows normal_rows_Cons clean_cells_concrete clean_COLUMNS)

text \<open>
  Claim C4, as amended. The data rows are what \<open>delete_selected\<close> takes them to be: the
  rows after the first two, or all rows when there are at most two. When none of them has
  the identifier in field 0, the outcome is not-found and the file system is the one
  before. Otherwise the outcome is success, no other file is touched, and the file reads
  back as the old rows without the first data row that has the identifier, with every
  cell stripped once more: one row fewer in all, and among the remaining rows one row
  fewer with that identifier. The number of data rows goes down by one unless the file
  had exactly three rows, and the number of rows after the first two goes down by one
  when the file had more than two rows. When the stripping on load leaves every cell of
  the file as it is, the rows read back are exactly the remaining rows; if moreover the
  file had not exactly three rows, the first two rows and the order of the data rows are
  kept, and no data row with the identifier remains if only one had it.
\<close>

theorem C4_remove_first_match:
  "(let rows = read_all_rows files path;
        data = data_rows_edit rows;
        result = delete_selected p files path ident;
        after = read_all_rows (snd result) path
    in if \<exists>r\<in>set data. matches ident r
       then fst result = Done \<and>
            after = map (map clean_cell) (header_rows_edit rows @ remove_first ident data) \<and>
            length after + 1 = length rows \<and>
            filter (matches ident) (remove_first ident data) = tl (filter (matches ident) data) \<and>
            (\<forall>q. q = path \<or> snd result q = files q) \<and>
            (length rows \<noteq> 3 \<longrightarrow> length (data_rows_edit after) + 1 = length data) \<and>
            (2 < length rows \<longrightarrow>
               length (data_rows_preview after) + 1 = length (data_rows_preview rows)) \<and>
            (normal_rows rows \<longrightarrow> after = header_rows_edit rows @ remove_first ident data) \<and>
            (normal_rows rows \<longrightarrow> length rows \<noteq> 3 \<longrightarrow>
               header_rows_edit after = header_rows_edit rows \<and>
               data_rows_edit after = remove_first ident data \<and>
               (length (filter (matches ident) data) = 1 \<longrightarrow>
                  \<not> (\<exists>r\<in>set (data_rows_edit after). matches ident r)))
       else result = (NotFound, files))"
proof (cases "\<exists>r\<in>set (data_rows_edit (read_all_rows files path)). matches ident r")
  case False
  then show ?thesis
    using delete_not_found [of files path ident p] by (simp add: Let_def)
next
  case True
  note df = delete_found [OF True, where p = p]
  note dc = delete_found_counts [OF True, where p = p]
  note dn = delete_found_normal [OF True, where p = p]
  have other: "\<forall>q. q = path \<or> snd (delete_selected p files path ident) q = files q"
    using df(4) by blast
  show ?thesis
    unfolding Let_def
    by (simp only: True if_True)
       (intro conjI impI df(1) df(2) df(3) filter_remove_first other dc dn; assumption)
qed

lemma matches_concrete:
  "matches (ustr ''1'') sample_row" "\<not> matches (ustr ''1'') second_row"
  "\<not> matches (ustr ''9'') sample_row" "\<not> matches (ustr ''9'') second_row"
  "matches (ustr ''1'') ([ustr ''1'', ustr ''Digital''] @ replicate 13 [])"
  by (simp_all add: matches_def sample_row_def second_row_def ustr_def)

lemma edit_split_four:
  "data_rows_edit [a, b, c, d] = [c, d]" "header_rows_edit [a, b, c, d] = [a, b]"
  "data_rows_preview [a, b, c, d] = [c, d]"
  "data_rows_edit [a, b, c] = [c]" "header_rows_edit [a, b, c] = [a, b]"
  "data_rows_preview [a, b, c] = [c]"
  "data_rows_edit [a, b] = [a, b]" "header_rows_edit [a, b] = []" "data_rows_preview [a, b] = []"
  by (simp_all add: data_rows_edit_def header_rows_edit_def data_rows_preview_def)

theorem C4_remove_first_match_witness:
  "fst (delete_selected Posix two_record_store ''x.csv'' (ustr ''1'')) = Done \<and>
   read_all_rows two_record_store ''x.csv'' =
     [plain_version_cells, COLUMNS, sample_row, second_row] \<and>
   read_all_rows (snd (delete_selected Posix two_record_store ''x.csv'' (ustr ''1''))) ''x.csv'' =
     [plain_version_cells, COLUMNS, second_row] \<and>
   data_rows_edit
     (read_all_rows (snd (delete_selected Posix two_record_store ''x.csv'' (ustr ''1''))) ''x.csv'') =
     [second_row] \<and>
   delete_selected Posix two_record_store ''x.csv'' (ustr ''9'') = (NotFound, two_record_store)"
proof -
  note t1 = C4_remove_first_match [where files = two_record_store and path = "''x.csv''"
      and ident = "ustr ''1''" and p = Posix]
  note t9 = C4_remove_first_match [where files = two_record_store and path = "''x.csv''"
      and ident = "ustr ''9''" and p = Posix]
  have rf: "remove_first (ustr ''1'') [sample_row, second_row] = [second_row]"
    by (simp add: remove_first_Cons matches_concrete)
  have nr: "normal_rows [plain_version_cells, COLUMNS, sample_row, second_row]"
    using two_record_store_normal by (simp only: two_record_store_rows)
  have a: "fst (delete_selected Posix two_record_store ''x.csv'' (ustr ''1'')) = Done \<and>
     read_all_rows (snd (delete_selected Posix two_record_store ''x.csv'' (ustr ''1''))) ''x.csv'' =
       [plain_version_cells, COLUMNS, second_row] \<and>
     data_rows_edit
       (read_all_rows (snd (delete_selected Posix two_record_store ''x.csv'' (ustr ''1''))) ''x.csv'') =
       [second_row]"
    using t1 nr
    by (simp add: Let_def two_record_store_rows edit_split_four matches_concrete rf
        clean_cells_concrete clean_COLUMNS)
  have b: "delete_selected Posix two_record_store ''x.csv'' (ustr ''9'') = (NotFound, two_record_store)"
    using t9
    by (simp add: Let_def two_record_store_rows edit_split_four matches_concrete)
  show ?thesis
    using a b two_record_store_rows by blast
qed

text \<open>
  The claim as stated fails. In the first store the data rows have the identifiers \<open>1\<close>
  and \<open>"1"\<close>, which differ; removing \<open>1\<close> succeeds, and the one data row left has the
  identifier \<open>1\<close>, because the rewritten cell \<open>"1"\<close> loses its quotes when it is read
  again. In the second store, with the version row, the header row and one data row,
  removing the data row leaves two rows, which the removal path takes to be two data
  rows: the count does not go down by one.
\<close>

theorem C4_remove_counterexample:
  "map hd (data_rows_edit (read_all_rows quoted_id_store ''x.csv'')) =
     [ustr ''1'', [DQUOTE, 49, DQUOTE]] \<and>
   fst (delete_selected Posix quoted_id_store ''x.csv'' (ustr ''1'')) = Done \<and>
   map hd (data_rows_edit
     (read_all_rows (snd (delete_selected Posix quoted_id_store ''x.csv'' (ustr ''1''))) ''x.csv'')) =
     [ustr ''1''] \<and>
   map hd (data_rows_preview
     (read_all_rows (snd (delete_selected Posix quoted_id_store ''x.csv'' (ustr ''1''))) ''x.csv'')) =
     [ustr ''1''] \<and>
   length (data_rows_edit (read_all_rows one_record_store ''x.csv'')) = 1 \<and>
   fst (delete_selected Posix one_record_store ''x.csv'' (ustr ''1'')) = Done \<and>
   length (data_rows_edit
     (read_all_rows (snd (delete_selected Posix one_record_store ''x.csv'' (ustr ''1''))) ''x.csv'')) = 2"
proof -
  let ?r1 = "[ustr ''1'', ustr ''Digital''] @ replicate 13 []"
  let ?rq = "[[DQUOTE, 49, DQUOTE], ustr ''Analog''] @ replicate 13 []"
  have mq: "\<exists>r\<in>set (data_rows_edit (read_all_rows quoted_id_store ''x.csv'')). matches (ustr ''1'') r"
    by (simp add: quoted_id_store_rows edit_split_four matches_concrete del: replicate_Suc append.simps)
  have rfq: "remove_first (ustr ''1'') [?r1, ?rq] = [?rq]"
    by (simp add: remove_first_Cons matches_concrete del: append.simps)
  have cq: "clean_cell [DQUOTE, 49, DQUOTE] = ustr ''1''"
    by (simp add: clean_cell_def strip_def strip_chars_def is_space_def ustr_def)
  have q1: "map hd (data_rows_edit (read_all_rows quoted_id_store ''x.csv'')) =
     [ustr ''1'', [DQUOTE, 49, DQUOTE]]"
    by (simp add: quoted_id_store_rows edit_split_four)
  have q2: "fst (delete_selected Posix quoted_id_store ''x.csv'' (ustr ''1'')) = Done"
    using mq by (rule delete_found(1))
  have q3: "read_all_rows (snd (delete_selected Posix quoted_id_store ''x.csv'' (ustr ''1''))) ''x.csv'' =
      [map clean_cell plain_version_cells, map clean_cell COLUMNS, map clean_cell ?rq]"
    using delete_found(2) [OF mq, of Posix]
    by (simp only: quoted_id_store_rows edit_split_four rfq) simp
  have mo: "\<exists>r\<in>set (data_rows_edit (read_all_rows one_record_store ''x.csv'')). matches (ustr ''1'') r"
    by (simp add: one_record_store_rows edit_split_four matches_concrete)
  have rfo: "remove_first (ustr ''1'') [sample_row] = []"
    by (simp add: remove_first_Cons matches_concrete)
  have o3: "read_all_rows (snd (delete_selected Posix one_record_store ''x.csv'' (ustr ''1''))) ''x.csv'' =
      [map clean_cell version_cells, map clean_cell COLUMNS]"
    using delete_found(2) [OF mo, of Posix]
    by (simp only: one_record_store_rows edit_split_four rfo) simp
  show ?thesis
    using q1 q2 delete_found(1) [OF mo, of Posix]
    by (simp add: q3 o3 edit_split_four cq one_record_store_rows del: replicate_Suc append.simps)
qed

subsection \<open>\<open>save_changes\<close>\<close>

lemma replace_first_Nil [simp]: "replace_first ident new [] = []"
  by (simp add: replace_first_def)

lemma replace_first_Cons:
  "replace_first ident new (r # rows) =
   (if matches ident r then new # rows else r # replace_first ident new rows)"
proof (cases "matches ident r")
  case True
  then show ?thesis by (simp add: replace_first_def)
next
  case False
  show ?thesis
  proof (cases "dropWhile (\<lambda>r. \<not> matches ident r) rows")
    case Nil
    with False show ?thesis
      by (simp add: replace_first_def del: dropWhile_eq_Nil_conv)
  next
    case (Cons x xs)
    with False show ?thesis
      by (simp add: replace_first_def)
  qed
qed

lemma update_loop_updated: "update_loop ident new True rows = (rows, True)"
  by (induction rows) simp_all

lemma update_loop_spec:
  "update_loop ident new False rows =
   (if \<exists>r\<in>set rows. matches ident r then (replace_first ident new rows, True) else (rows, False))"
proof (induction rows)
  case Nil
  then show ?case by simp
next
  case (Cons r rows)
  show ?case
  proof (cases "matches ident r")
    case True
    then show ?thesis
      by (simp add: update_loop_updated replace_first_Cons) (simp add: matches_def)
  next
    case False
    then have "\<not> (length r > 0 \<and> r ! 0 = ident)" by (simp add: matches_def)
    with False Cons.IH show ?thesis
      by (auto simp: replace_first_Cons)
  qed
qed

lemma save_new_all_spec:
  "save_new_all ident new rows =
   (if \<exists>r\<in>set (data_rows_edit rows). matches ident r
    then (header_rows_edit rows @ replace_first ident new (data_rows_edit rows), True)
    else (header_rows_edit rows @ data_rows_edit rows, False))"
  by (simp add: save_new_all_def update_loop_spec)

lemma length_replace_first [simp]: "length (replace_first ident new rows) = length rows"
  by (induction rows) (simp_all add: replace_first_Cons)

lemma set_replace_first: "set (replace_first ident new rows) \<subseteq> insert new (set rows)"
  by (induction rows) (auto simp: replace_first_Cons)

lemma count_replace_first:
  "\<exists>r\<in>set rows. matches ident r \<Longrightarrow>
   count_list (replace_first ident new rows) new = 1 + count_list (remove_first ident rows) new"
proof (induction rows)
  case Nil
  then show ?case by simp
next
  case (Cons a rows)
  show ?case
  proof (cases "matches ident a")
    case True
    then show ?thesis by (simp add: replace_first_Cons remove_first_Cons)
  next
    case False
    with Cons.prems have "\<exists>r\<in>set rows. matches ident r" by auto
    with Cons.IH False show ?thesis by (simp add: replace_first_Cons remove_first_Cons)
  qed
qed

lemma filter_replace_first:
  "\<exists>r\<in>set rows. matches ident r \<Longrightarrow>
   filter (matches ident) (replace_first ident new rows) =
   (if matches ident new then [new] else []) @ tl (filter (matches ident) rows)"
proof (induction rows)
  case Nil
  then show ?case by simp
next
  case (Cons a rows)
  show ?case
  proof (cases "matches ident a")
    case True
    then show ?thesis by (simp add: replace_first_Cons)
  next
    case False
    with Cons.prems have "\<exists>r\<in>set rows. matches ident r" by auto
    with Cons.IH False show ?thesis by (simp add: replace_first_Cons)
  qed
qed

lemma id_exists_loop_Some:
  "id_exists_loop target (Some exclude) rows \<longleftrightarrow>
   target \<noteq> exclude \<and> (\<exists>r\<in>set rows. matches target r)"
  by (induction rows) (auto simp: matches_def)

lemma id_exists_Some:
  "id_exists files path target (Some exclude) \<longleftrightarrow>
   target \<noteq> exclude \<and> (\<exists>r\<in>set (drop 2 (read_all_rows files path)). matches target r)"
  by (simp add: id_exists_def id_exists_loop_Some data_rows_preview_drop)

lemma length_new_row [simp]: "length (new_row f) = 15"
  by (simp add: new_row_def)

lemma new_row_matches: "matches ident (new_row f) \<longleftrightarrow> strip (entry_id f) = ident"
  by (simp add: matches_def new_row_def)

lemma write_chunks_decode:
  "write_chunks p chunks = (bs, True) \<Longrightarrow>
   utf16le_decode bs = Some (concat (map (translate_newlines p) chunks))"
proof (induction chunks arbitrary: bs)
  case Nil
  then show ?case by simp
next
  case (Cons s chunks)
  then obtain b rest where b: "utf16le_encode (translate_newlines p s) = Some b"
    and rest: "write_chunks p chunks = (rest, True)" and bs: "bs = b @ rest"
    by (auto split: option.splits prod.splits)
  show ?case
    using encode_decode_append [OF b, of rest] Cons.IH [OF rest] by (simp add: bs)
qed

lemma write_rows_text:
  "snd (write_rows p files path rows) \<Longrightarrow>
   file_text (fst (write_rows p files path rows)) path =
   Some (concat (map (translate_newlines p) (map row_line rows)))"
proof -
  assume ok: "snd (write_rows p files path rows)"
  obtain bs flag where w: "write_chunks p (map row_line rows) = (bs, flag)"
    by (cases "write_chunks p (map row_line rows)")
  with ok have flag by (simp add: write_rows_def open_write_def)
  with w have "utf16le_decode bs = Some (concat (map (translate_newlines p) (map row_line rows)))"
    by (intro write_chunks_decode) simp
  then show ?thesis
    by (simp add: write_rows_def open_write_def w file_text_def)
qed

section \<open>Sanitization\<close>

text \<open>
  Claim C7. A value is \<open>None\<close> or a string, and sanitization returns a string for
  either: the empty string for \<open>None\<close>; for a string, the string of the same length in
  which every line feed and every carriage return has become one space, every double
  quote an apostrophe, and every other character is kept. The result holds no line feed,
  no carriage return and no double quote, and sanitizing it again changes nothing.
\<close>

theorem C7_sanitize_field_mapping:
  "(v = PyNone \<or> (\<exists>s. v = PyStr s)) \<and>
   sanitize_field PyNone = [] \<and>
   sanitize_field (PyStr s) =
     map (\<lambda>c. if c = LF \<or> c = CR then SPACE else if c = DQUOTE then SQUOTE else c) s \<and>
   length (sanitize_field (PyStr s)) = length s \<and>
   LF \<notin> set (sanitize_field v) \<and> CR \<notin> set (sanitize_field v) \<and>
   DQUOTE \<notin> set (sanitize_field v) \<and>
   sanitize_field (PyStr (sanitize_field v)) = sanitize_field v"
proof -
  have cases: "v = PyNone \<or> (\<exists>s. v = PyStr s)"
    by (cases v) simp_all
  have len: "length (sanitize_field (PyStr s)) = length s"
    by (simp add: replace_char_def)
  have idem: "sanitize_field (PyStr (sanitize_field v)) = sanitize_field v"
    using sanitize_field_no_LF [of v] sanitize_field_no_CR [of v] sanitize_field_no_DQUOTE [of v]
    by (rule sanitize_field_fixed)
  show ?thesis
    using cases len idem sanitize_field_pointwise [of s]
      sanitize_field_no_LF [of v] sanitize_field_no_CR [of v] sanitize_field_no_DQUOTE [of v]
    by (simp only: sanitize_field.simps(1) simp_thms)
qed

end
